theory Spec2Isabelle
  imports Complex_Main "HOL-Library.Word"
begin

section \<open>Utterance segmenter (\<^verbatim>\<open>audio_processor.py\<close>, class \<^verbatim>\<open>AudioProcessor\<close>)\<close>

text \<open>
  A frame is the \<^verbatim>\<open>bytes\<close> object handed to \<^verbatim>\<open>_process_frame\<close>. The voice-activity
  classifier (\<^verbatim>\<open>webrtcvad\<close>) is an external library: it is a parameter of the model, a
  function from a frame to either an error (the call raised) or the verdict.

  The two thresholds \<^verbatim>\<open>silence_threshold_frames\<close> and \<^verbatim>\<open>min_speech_frames\<close> are computed
  once by the constructor and never change; they are fields of the state, as in the class.
  Python integers are \<open>int\<close>.
\<close>

type_synonym byte = "8 word"
type_synonym frame = "byte list"

datatype frame_error = VadFailure | BufferSizeError

type_synonym vad = "frame \<Rightarrow> frame_error + bool"

record audio_processor =
  speech_frames :: "frame list"
  silence_frames :: int
  speech_started :: bool
  silence_threshold_frames :: int
  min_speech_frames :: int

definition new_processor :: "int \<Rightarrow> int \<Rightarrow> audio_processor" where
  "new_processor stf msf =
     \<lparr> speech_frames = [], silence_frames = 0, speech_started = False,
       silence_threshold_frames = stf, min_speech_frames = msf \<rparr>"

text \<open>
  \<^verbatim>\<open>np.frombuffer(audio_bytes, dtype=np.int16)\<close>: little-endian 16-bit samples; it raises
  \<^verbatim>\<open>ValueError\<close> when the buffer size is not a multiple of the element size.
\<close>

fun frombuffer_int16 :: "byte list \<Rightarrow> frame_error + 16 word list" where
  "frombuffer_int16 [] = Inr []"
| "frombuffer_int16 [b] = Inl BufferSizeError"
| "frombuffer_int16 (lo # hi # bs) =
     (case frombuffer_int16 bs of
        Inl e \<Rightarrow> Inl e
      | Inr ws \<Rightarrow> Inr ((word_cat hi lo :: 16 word) # ws))"

text \<open>
  \<^verbatim>\<open>.astype(np.float32) / 32768.0\<close>: a 16-bit integer divided by a power of two is exact
  in single precision, so the sample is the real number itself.
\<close>

definition normalize_sample :: "16 word \<Rightarrow> real" where
  "normalize_sample w = real_of_int (sint w) / 32768"

definition finalize_segment :: "audio_processor \<Rightarrow> frame_error + real list" where
  "finalize_segment s =
     (if speech_frames s = [] then Inr []
      else (case frombuffer_int16 (concat (speech_frames s)) of
              Inl e \<Rightarrow> Inl e
            | Inr ws \<Rightarrow> Inr (map normalize_sample ws)))"

definition reset_state :: "audio_processor \<Rightarrow> audio_processor" where
  "reset_state s = s\<lparr> speech_frames := [], silence_frames := 0, speech_started := False \<rparr>"

text \<open>
  \<^verbatim>\<open>_process_frame\<close>. The whole body is inside \<^verbatim>\<open>try ... except Exception\<close>, whose handler
  logs and falls through to \<^verbatim>\<open>return None\<close>: an exception keeps whatever the body had
  already written to the object.
\<close>

definition process_frame ::
  "vad \<Rightarrow> frame \<Rightarrow> audio_processor \<Rightarrow> real list option \<times> audio_processor" where
  "process_frame is_speech frame_data s =
     (case is_speech frame_data of
        Inl e \<Rightarrow> (None, s)
      | Inr True \<Rightarrow>
          (None, s\<lparr> speech_frames := speech_frames s @ [frame_data],
                    silence_frames := 0,
                    speech_started := True \<rparr>)
      | Inr False \<Rightarrow>
          (if speech_started s then
             (let s1 = s\<lparr> silence_frames := silence_frames s + 1 \<rparr>;
                  s2 = (if silence_frames s1 \<le> 3
                        then s1\<lparr> speech_frames := speech_frames s1 @ [frame_data] \<rparr>
                        else s1)
              in if silence_frames s2 \<ge> silence_threshold_frames s2 then
                   (if int (length (speech_frames s2)) \<ge> min_speech_frames s2 then
                      (case finalize_segment s2 of
                         Inl e \<Rightarrow> (None, s2)
                       | Inr segment \<Rightarrow> (Some segment, reset_state s2))
                    else (None, reset_state s2))
                 else (None, s2))
           else (None, s)))"

text \<open>
  \<^verbatim>\<open>force_segment\<close> has no exception handler: an error of \<^verbatim>\<open>_finalize_segment\<close> reaches the
  caller.
\<close>

definition force_segment ::
  "audio_processor \<Rightarrow> frame_error + (real list option \<times> audio_processor)" where
  "force_segment s =
     (if int (length (speech_frames s)) \<ge> min_speech_frames s then
        (case finalize_segment s of
           Inl e \<Rightarrow> Inl e
         | Inr segment \<Rightarrow> Inr (Some segment, reset_state s))
      else if speech_frames s \<noteq> [] then Inr (None, reset_state s)
      else Inr (None, s))"

text \<open>Feeding a sequence of frames, one \<^verbatim>\<open>_process_frame\<close> call each; the segments are dropped.\<close>

fun feed_frames :: "vad \<Rightarrow> frame list \<Rightarrow> audio_processor \<Rightarrow> audio_processor" where
  "feed_frames is_speech [] s = s"
| "feed_frames is_speech (f # fs) s = feed_frames is_speech fs (snd (process_frame is_speech f s))"

text \<open>
  The same, keeping the completed segments in order, as \<^verbatim>\<open>add_audio_chunk\<close> does with the
  frames it cuts from its buffer.
\<close>

fun process_frames ::
  "vad \<Rightarrow> frame list \<Rightarrow> audio_processor \<Rightarrow> real list list \<times> audio_processor" where
  "process_frames is_speech [] s = ([], s)"
| "process_frames is_speech (f # fs) s =
     (case process_frame is_speech f s of
        (segment, s') \<Rightarrow>
          (case process_frames is_speech fs s' of
             (completed_segments, s'') \<Rightarrow>
               ((case segment of None \<Rightarrow> [] | Some x \<Rightarrow> [x]) @ completed_segments, s'')))"

section \<open>Synthesis protocol client (\<^verbatim>\<open>t2v_client.py\<close>, class \<^verbatim>\<open>T2VClient\<close>)\<close>

subsection \<open>The two library decoders\<close>

text \<open>
  \<^verbatim>\<open>bytes.fromhex\<close> and \<^verbatim>\<open>base64.b64decode\<close> belong to the Python library, not to the
  repository. The receive loop below takes them as parameters, a function from the payload
  string to the decoded bytes, \<open>None\<close> where the library raises \<^verbatim>\<open>ValueError\<close>
  (\<^verbatim>\<open>binascii.Error\<close> is a subclass of it). The two definitions of this subsection follow
  CPython's behaviour and are what the concrete evaluations instantiate the parameters with.
\<close>

type_synonym decoder = "string \<Rightarrow> byte list option"

definition isspace_ascii :: "char \<Rightarrow> bool" where
  "isspace_ascii c = (c \<in> set [CHR '' '', CHR 0x09, CHR 0x0A, CHR 0x0B, CHR 0x0C, CHR 0x0D])"

definition hex_digit :: "char \<Rightarrow> nat option" where
  "hex_digit c =
     (let n = (of_char c :: nat) in
      if 48 \<le> n \<and> n \<le> 57 then Some (n - 48)
      else if 97 \<le> n \<and> n \<le> 102 then Some (n - 87)
      else if 65 \<le> n \<and> n \<le> 70 then Some (n - 55)
      else None)"

text \<open>\<^verbatim>\<open>bytes.fromhex\<close>: whitespace is skipped between bytes, each byte is two hex digits.\<close>

fun bytes_fromhex :: decoder where
  "bytes_fromhex [] = Some []"
| "bytes_fromhex (c # cs) =
     (if isspace_ascii c then bytes_fromhex cs
      else (case hex_digit c of
              None \<Rightarrow> None
            | Some hi \<Rightarrow>
                (case cs of
                   [] \<Rightarrow> None
                 | d # ds \<Rightarrow>
                     (case hex_digit d of
                        None \<Rightarrow> None
                      | Some lo \<Rightarrow>
                          (case bytes_fromhex ds of
                             None \<Rightarrow> None
                           | Some bs \<Rightarrow> Some (of_nat (16 * hi + lo) # bs))))))"

definition b64_digit :: "char \<Rightarrow> nat option" where
  "b64_digit c =
     (let n = (of_char c :: nat) in
      if 65 \<le> n \<and> n \<le> 90 then Some (n - 65)
      else if 97 \<le> n \<and> n \<le> 122 then Some (n - 71)
      else if 48 \<le> n \<and> n \<le> 57 then Some (n + 4)
      else if n = 43 then Some 62
      else if n = 47 then Some 63
      else None)"

text \<open>
  \<^verbatim>\<open>binascii.a2b_base64\<close> in its default, non-strict mode, which \<^verbatim>\<open>base64.b64decode\<close> calls:
  characters outside the alphabet are skipped, a pad that completes a quad ends the input,
  and input that ends inside a quad is an error. The arguments are the position in the
  quad, the bits left over from the previous characters and the number of pads seen in a row.
\<close>

fun a2b_base64 :: "nat \<Rightarrow> nat \<Rightarrow> nat \<Rightarrow> string \<Rightarrow> byte list option" where
  "a2b_base64 quad_pos leftchar pads [] = (if quad_pos = 0 then Some [] else None)"
| "a2b_base64 quad_pos leftchar pads (c # cs) =
     (if c = CHR ''='' then
        (if quad_pos \<ge> 2 \<and> quad_pos + (pads + 1) \<ge> 4 then Some []
         else a2b_base64 quad_pos leftchar (if quad_pos \<ge> 2 then pads + 1 else pads) cs)
      else (case b64_digit c of
              None \<Rightarrow> a2b_base64 quad_pos leftchar pads cs
            | Some v \<Rightarrow>
                (if quad_pos = 0 then a2b_base64 1 v 0 cs
                 else if quad_pos = 1 then
                   map_option (\<lambda>bs. of_nat (leftchar * 4 + v div 16) # bs)
                     (a2b_base64 2 (v mod 16) 0 cs)
                 else if quad_pos = 2 then
                   map_option (\<lambda>bs. of_nat (leftchar * 16 + v div 4) # bs)
                     (a2b_base64 3 (v mod 4) 0 cs)
                 else
                   map_option (\<lambda>bs. of_nat (leftchar * 64 + v) # bs)
                     (a2b_base64 0 0 0 cs))))"

text \<open>
  \<^verbatim>\<open>base64.b64decode\<close> of a \<^verbatim>\<open>str\<close> first encodes it as ASCII and raises \<^verbatim>\<open>ValueError\<close> when
  it holds a character outside ASCII.
\<close>

definition b64decode :: decoder where
  "b64decode s =
     (if list_all (\<lambda>c. (of_char c :: nat) < 128) s then a2b_base64 0 0 0 s else None)"

subsection \<open>The receive loop of \<^verbatim>\<open>synthesize_text\<close>\<close>

text \<open>
  A provider message is the parsed JSON object, reduced to the three entries the loop
  reads: \<^verbatim>\<open>response_data["data"]["audio"]\<close> (when both keys are present),
  \<^verbatim>\<open>response_data["extra_info"]["audio_format"]\<close> (likewise) and
  \<^verbatim>\<open>response_data.get("event")\<close>.

  One \<^verbatim>\<open>await asyncio.wait_for(self.websocket.recv(), timeout=chunk_timeout)\<close> followed by
  \<^verbatim>\<open>json.loads\<close> yields a message, or raises \<^verbatim>\<open>asyncio.TimeoutError\<close>, or raises something else
  (connection closed, invalid JSON).
\<close>

record message =
  msg_audio :: "string option"
  msg_audio_format :: "string option"
  msg_event :: "string option"

datatype recv = Msg message | RecvTimeout | RecvError

text \<open>
  What the client does that can be observed from outside: an invocation of the chunk
  callback with its three arguments, and a line written with \<^verbatim>\<open>logger.error\<close>.
\<close>

datatype synth_event = Callback "byte list" bool string | ErrorLog string

text \<open>
  The callback is optional; when present it is modelled by the function telling whether
  the invocation raises (the client catches and logs that).
\<close>

type_synonym chunk_callback = "(byte list \<Rightarrow> bool \<Rightarrow> string \<Rightarrow> bool) option"

record synth_state =
  audio_chunks :: "byte list list"
  audio_format :: string
  total_chunks :: int
  last_chunk_info :: "(byte list \<times> string) option"

definition init_synth_state :: synth_state where
  "init_synth_state =
     \<lparr> audio_chunks = [], audio_format = ''mp3'', total_chunks = 0, last_chunk_info = None \<rparr>"

definition decode_audio :: "decoder \<Rightarrow> decoder \<Rightarrow> string \<Rightarrow> byte list option" where
  "decode_audio fromhex b64 audio_hex =
     (case fromhex audio_hex of
        Some audio_bytes \<Rightarrow> Some audio_bytes
      | None \<Rightarrow> b64 audio_hex)"

definition invoke :: "chunk_callback \<Rightarrow> byte list \<Rightarrow> bool \<Rightarrow> string \<Rightarrow> string \<Rightarrow> synth_event list" where
  "invoke cb chunk final fmt errmsg =
     (case cb of
        None \<Rightarrow> []
      | Some raises \<Rightarrow>
          Callback chunk final fmt # (if raises chunk final fmt then [ErrorLog errmsg] else []))"

text \<open>
  Lines 146-176: the audio part of one message. \<open>None\<close> is the exception of the base64
  fallback, raised before anything is written to the local variables.
\<close>

definition handle_audio ::
  "decoder \<Rightarrow> decoder \<Rightarrow> chunk_callback \<Rightarrow> message \<Rightarrow> synth_state
     \<Rightarrow> (synth_state \<times> synth_event list) option" where
  "handle_audio fromhex b64 cb m st =
     (case msg_audio m of
        None \<Rightarrow> Some (st, [])
      | Some audio_hex \<Rightarrow>
          (case decode_audio fromhex b64 audio_hex of
             None \<Rightarrow> None
           | Some audio_bytes \<Rightarrow>
               (let st1 = st\<lparr> audio_chunks := audio_chunks st @ [audio_bytes],
                              total_chunks := total_chunks st + 1 \<rparr>;
                    st2 = (case msg_audio_format m of
                             Some f \<Rightarrow> st1\<lparr> audio_format := f \<rparr>
                           | None \<Rightarrow> st1);
                    st3 = (if length audio_bytes > 0
                           then st2\<lparr> last_chunk_info := Some (audio_bytes, audio_format st2) \<rparr>
                           else st2)
                in Some (st3, invoke cb audio_bytes False (audio_format st3)
                                ''T2V chunk callback error''))))"

text \<open>Lines 179-203: the final callback on \<^verbatim>\<open>task_finished\<close>.\<close>

definition handle_finished :: "chunk_callback \<Rightarrow> synth_state \<Rightarrow> synth_event list" where
  "handle_finished cb st =
     (if cb \<noteq> None \<and> total_chunks st > 0 \<and> last_chunk_info st \<noteq> None then
        (case last_chunk_info st of
           Some (last_audio, last_format) \<Rightarrow>
             invoke cb last_audio True last_format ''T2V final chunk callback error''
         | None \<Rightarrow> [])
      else if cb \<noteq> None then
        invoke cb [] True (audio_format st) ''T2V final empty chunk callback error''
      else [])"

text \<open>Lines 210-224: the final callback when no message arrives within the chunk timeout.\<close>

definition handle_timeout :: "chunk_callback \<Rightarrow> synth_state \<Rightarrow> synth_event list" where
  "handle_timeout cb st =
     (if cb \<noteq> None \<and> total_chunks st > 0 then
        invoke cb (if audio_chunks st \<noteq> [] then last (audio_chunks st) else []) True
          (audio_format st) ''T2V final chunk callback error''
      else [])"

datatype loop_exit = Break | ReturnNone

text \<open>
  The \<^verbatim>\<open>while True\<close> loop, run on the sequence of outcomes of its \<^verbatim>\<open>recv\<close> calls. The loop
  has no bound of its own: it runs for as long as the provider keeps sending messages that
  are neither \<^verbatim>\<open>task_finished\<close> nor \<^verbatim>\<open>task_failed\<close>. The first component of the result
  tells how the loop was left; it is \<open>None\<close> when the sequence is used up and the loop is
  still waiting in \<^verbatim>\<open>recv\<close>. The events are those produced so far.
\<close>

fun recv_loop ::
  "decoder \<Rightarrow> decoder \<Rightarrow> chunk_callback \<Rightarrow> recv list \<Rightarrow> synth_state
     \<Rightarrow> loop_exit option \<times> synth_state \<times> synth_event list" where
  "recv_loop fromhex b64 cb [] st = (None, st, [])"
| "recv_loop fromhex b64 cb (RecvTimeout # rs) st = (Some Break, st, handle_timeout cb st)"
| "recv_loop fromhex b64 cb (RecvError # rs) st =
     (Some Break, st, [ErrorLog ''T2V WebSocket error''])"
| "recv_loop fromhex b64 cb (Msg m # rs) st =
     (case handle_audio fromhex b64 cb m st of
        None \<Rightarrow> (Some Break, st, [ErrorLog ''T2V WebSocket error''])
      | Some (st', evs) \<Rightarrow>
          if msg_event m = Some ''task_finished'' then
            (Some Break, st', evs @ handle_finished cb st')
          else if msg_event m = Some ''task_failed'' then
            (Some ReturnNone, st', evs @ [ErrorLog ''T2V synthesis failed''])
          else
            (case recv_loop fromhex b64 cb rs st' of
               (ex, st'', evs') \<Rightarrow> (ex, st'', evs @ evs')))"

text \<open>
  \<^verbatim>\<open>synthesize_text\<close>. The connection is the field \<^verbatim>\<open>self.websocket\<close> (here: whether it is
  set); \<open>sends_ok\<close> tells whether the two \<^verbatim>\<open>send\<close> calls before the loop succeed. A call
  that returns gives \<open>Some\<close> of the raised exception or of the returned value, which is the
  dictionary \<^verbatim>\<open>{"audio_data": ..., "format": ...}\<close> or \<^verbatim>\<open>None\<close>.
\<close>

datatype synth_error = NotConnected

type_synonym audio_result = "(byte list \<times> string) option"

definition synthesize_text ::
  "decoder \<Rightarrow> decoder \<Rightarrow> bool \<Rightarrow> bool \<Rightarrow> chunk_callback \<Rightarrow> recv list
     \<Rightarrow> (synth_error + audio_result) option \<times> synth_event list" where
  "synthesize_text fromhex b64 websocket sends_ok cb rs =
     (if \<not> websocket then (Some (Inl NotConnected), [])
      else if \<not> sends_ok then (Some (Inr None), [ErrorLog ''T2V synthesis error''])
      else (case recv_loop fromhex b64 cb rs init_synth_state of
              (None, st, evs) \<Rightarrow> (None, evs)
            | (Some ReturnNone, st, evs) \<Rightarrow> (Some (Inr None), evs)
            | (Some Break, st, evs) \<Rightarrow>
                if audio_chunks st \<noteq> [] then
                  (Some (Inr (Some (concat (audio_chunks st), audio_format st))), evs)
                else (Some (Inr None), evs @ [ErrorLog ''No audio chunks received''])))"

text \<open>
  \<^verbatim>\<open>T2VService.text_to_speech\<close>: a fresh client per call, used as a context manager.
  What the provider does during the session is the environment of the call:

  \<^item> \<^verbatim>\<open>connect()\<close>: the acknowledgement arrives; or another message arrives (logged, the
    websocket stays open); or \<^verbatim>\<open>recv\<close> or \<^verbatim>\<open>json.loads\<close> raises with the websocket open
    (logged); or opening the websocket raises and \<^verbatim>\<open>self.websocket\<close> stays \<^verbatim>\<open>None\<close> (logged);
    or the \<^verbatim>\<open>recv\<close>, which has no timeout, never returns.
  \<^item> \<^verbatim>\<open>start_task()\<close>: it raises when there is no websocket; otherwise the acknowledgement
    arrives, or another message (logged), or an exception (logged), or nothing ever.
    \<^verbatim>\<open>__aenter__\<close> ignores what \<^verbatim>\<open>connect\<close> and \<^verbatim>\<open>start_task\<close> return.
  \<^item> \<^verbatim>\<open>synthesize_text\<close>, as above.
  \<^item> \<^verbatim>\<open>__aexit__\<close> runs \<^verbatim>\<open>close()\<close>: \<^verbatim>\<open>finish_task\<close> sends the end-of-task directive and
    awaits one more message without a timeout (a reply; an exception, logged; or nothing
    ever), then the websocket is closed, which may raise (logged).

  Every exception that leaves the \<^verbatim>\<open>async with\<close> block ends in a logged error and
  \<^verbatim>\<open>return None\<close>. The call has returned only when \<^verbatim>\<open>close()\<close> has.
\<close>

datatype connect_outcome =
  Connected | ConnectRejected | ConnectBroken | ConnectFailed | ConnectPending

datatype start_outcome = Started | StartRejected | StartFailed | StartPending

datatype finish_outcome = FinishReplied | FinishFailed | FinishPending

record session_env =
  connect_result :: connect_outcome
  start_result :: start_outcome
  sends_ok :: bool
  recvs :: "recv list"
  finish_result :: finish_outcome
  close_ok :: bool

definition connect_log :: "connect_outcome \<Rightarrow> synth_event list" where
  "connect_log c =
     (case c of
        ConnectRejected \<Rightarrow> [ErrorLog ''T2V connection failed'']
      | ConnectBroken \<Rightarrow> [ErrorLog ''T2V WebSocket connection error'']
      | ConnectFailed \<Rightarrow> [ErrorLog ''T2V WebSocket connection error'']
      | _ \<Rightarrow> [])"

definition start_log :: "start_outcome \<Rightarrow> synth_event list" where
  "start_log c =
     (case c of
        StartRejected \<Rightarrow> [ErrorLog ''T2V task start failed'']
      | StartFailed \<Rightarrow> [ErrorLog ''T2V task start error'']
      | _ \<Rightarrow> [])"

definition close_log :: "finish_outcome \<Rightarrow> bool \<Rightarrow> synth_event list" where
  "close_log f ok =
     (case f of FinishFailed \<Rightarrow> [ErrorLog ''T2V task finish error''] | _ \<Rightarrow> [])
     @ (if ok then [] else [ErrorLog ''T2V close error''])"

definition text_to_speech ::
  "decoder \<Rightarrow> decoder \<Rightarrow> session_env \<Rightarrow> chunk_callback
     \<Rightarrow> audio_result option \<times> synth_event list" where
  "text_to_speech fromhex b64 env cb =
     (if connect_result env = ConnectPending then (None, [])
      else if connect_result env = ConnectFailed then
        (Some None, connect_log ConnectFailed @ [ErrorLog ''T2V service error''])
      else if start_result env = StartPending then (None, connect_log (connect_result env))
      else
        (case synthesize_text fromhex b64 True (sends_ok env) cb (recvs env) of
           (None, evs) \<Rightarrow>
             (None, connect_log (connect_result env) @ start_log (start_result env) @ evs)
         | (Some r, evs) \<Rightarrow>
             if finish_result env = FinishPending then
               (None, connect_log (connect_result env) @ start_log (start_result env) @ evs)
             else
               (case r of
                  Inl e \<Rightarrow>
                    (Some None,
                     connect_log (connect_result env) @ start_log (start_result env) @ evs
                     @ close_log (finish_result env) (close_ok env)
                     @ [ErrorLog ''T2V service error''])
                | Inr a \<Rightarrow>
                    (Some a,
                     connect_log (connect_result env) @ start_log (start_result env) @ evs
                     @ close_log (finish_result env) (close_ok env)))))"

section \<open>Remote translator client (\<^verbatim>\<open>minimax_client.py\<close>, class \<^verbatim>\<open>MiniMaxClient\<close>)\<close>

text \<open>
  A Python \<^verbatim>\<open>str\<close> is the list of its characters. \<^verbatim>\<open>str.strip()\<close> removes the characters
  for which \<^verbatim>\<open>str.isspace\<close> holds from both ends; among the code points a \<open>char\<close> covers
  these are 9 to 13, 28 to 32, 133 and 160.
\<close>

definition isspace :: "char \<Rightarrow> bool" where
  "isspace c =
     (let n = (of_char c :: nat) in (9 \<le> n \<and> n \<le> 13) \<or> (28 \<le> n \<and> n \<le> 32) \<or> n = 133 \<or> n = 160)"

definition strip :: "string \<Rightarrow> string" where
  "strip s = rev (dropWhile isspace (rev (dropWhile isspace s)))"

text \<open>
  One line of the streamed HTTP response, as far as the loop over \<^verbatim>\<open>response.iter_lines()\<close>
  tells lines apart: an empty line; a line without the \<^verbatim>\<open>data: \<close> prefix; a data line whose
  JSON does not parse; one without a non-empty \<^verbatim>\<open>choices\<close>; one with a first choice, of which
  the loop reads \<^verbatim>\<open>delta.content\<close> (absent or \<^verbatim>\<open>None\<close> is the empty string here) and whether
  \<^verbatim>\<open>finish_reason\<close> is \<^verbatim>\<open>'stop'\<close>; and the stream breaking with an exception.
\<close>

datatype translate_failure =
    RequestTimeout
  | ConnectionFailure string
  | BadStatus int string
  | OtherError string

datatype sse_line =
    EmptyLine
  | OtherLine
  | BadJson
  | NoChoices
  | Choice string bool
  | StreamBroken translate_failure

datatype post_outcome =
    Response int string "sse_line list"
  | PostFailed translate_failure

fun read_stream :: "sse_line list \<Rightarrow> string \<Rightarrow> translate_failure + string" where
  "read_stream [] translated_text = Inr translated_text"
| "read_stream (Choice content stop # ls) translated_text =
     (if stop then Inr (translated_text @ content)
      else read_stream ls (translated_text @ content))"
| "read_stream (StreamBroken e # ls) translated_text = Inl e"
| "read_stream (l # ls) translated_text = read_stream ls translated_text"

text \<open>
  \<^verbatim>\<open>_translate_sync\<close>, of which \<^verbatim>\<open>translate_text\<close> is the asynchronous wrapper. Every
  failure is re-raised as an \<^verbatim>\<open>Exception\<close>; the value of \<open>translate_failure\<close> stands for its
  message.
\<close>

definition translate_sync :: "string \<Rightarrow> post_outcome \<Rightarrow> translate_failure + string" where
  "translate_sync text_in outcome =
     (case outcome of
        PostFailed e \<Rightarrow> Inl e
      | Response status_code body ls \<Rightarrow>
          if status_code \<noteq> 200 then Inl (BadStatus status_code body)
          else (case read_stream ls [] of
                  Inl e \<Rightarrow> Inl e
                | Inr translated_text \<Rightarrow>
                    if strip translated_text = [] then Inr text_in
                    else Inr (strip translated_text)))"

definition translate_text :: "string \<Rightarrow> post_outcome \<Rightarrow> translate_failure + string" where
  "translate_text text_in outcome = translate_sync text_in outcome"

section \<open>Pipeline scheduler (\<^verbatim>\<open>translation_queue.py\<close>, class \<^verbatim>\<open>TranslationQueue\<close>)\<close>

subsection \<open>Tasks\<close>

datatype task_status = PENDING | PROCESSING | COMPLETED | FAILED | TIMEOUT

text \<open>
  The dictionary \<^verbatim>\<open>translation_result\<close>; \<^verbatim>\<open>audio_size\<close> is the key added to it when the
  synthesis returned audio.
\<close>

record translation_result =
  original_text :: string
  translated_text :: string
  result_language :: string
  result_task_id :: string
  audio_size :: "nat option"

text \<open>
  An exception caught by \<^verbatim>\<open>except Exception as e\<close> in \<^verbatim>\<open>_process_task\<close>, and the texts
  written to \<^verbatim>\<open>task.error\<close>. One of them formats a float, so the field is a value of a
  datatype with one constructor for each text of the source:
  \<^verbatim>\<open>"Queue overflow"\<close>, \<^verbatim>\<open>"Task timeout before processing"\<close>,
  \<^verbatim>\<open>f"Task timeout after {task.timeout_seconds}s"\<close>, \<^verbatim>\<open>"Task cleared by user"\<close>,
  \<^verbatim>\<open>"Task cancelled by user"\<close> and \<^verbatim>\<open>str(e)\<close>.
\<close>

datatype exn =
    TranslationError translate_failure
  | EmptyTranslation
  | CallbackRaised string

datatype error_text =
    QueueOverflow
  | TimeoutBeforeProcessing
  | TaskTimeoutAfter real
  | ClearedByUser
  | CancelledByUser
  | Raised exn

text \<open>The dataclass \<^verbatim>\<open>TranslationTask\<close>. Time stamps are readings of \<^verbatim>\<open>time.time()\<close>.\<close>

record translation_task =
  task_id :: string
  task_text :: string
  target_language :: string
  hot_words :: "string list"
  translation_style :: string
  status :: task_status
  created_at :: real
  started_at :: "real option"
  completed_at :: "real option"
  result :: "translation_result option"
  error :: "error_text option"
  timeout_seconds :: real

subsection \<open>The queue object\<close>

text \<open>
  Tasks are mutable objects shared between the queue, the two dictionaries and the local
  variable of the worker that processes them, so the model has a store: \<open>objects\<close> maps
  an address to the task object allocated there, \<open>next_ref\<close> is the next free address, and
  the queue and the dictionaries hold addresses. A dictionary is an association list with
  unique keys in insertion order. The three callbacks are represented by whether they are
  set. Each worker coroutine is at one of three places: waiting in
  \<^verbatim>\<open>self.pending_queue.get()\<close>, suspended inside the \<^verbatim>\<open>try\<close> block of \<^verbatim>\<open>_process_task\<close>, or
  suspended in the \<^verbatim>\<open>await\<close> of the error callback in the exception handler.
\<close>

type_synonym ref = nat

datatype worker_state = Polling | Running ref | Notifying ref

record translation_queue =
  max_concurrent :: int
  default_timeout :: real
  objects :: "ref \<Rightarrow> translation_task option"
  next_ref :: ref
  pending_queue :: "ref list"
  active_tasks :: "(string \<times> ref) list"
  completed_tasks :: "(string \<times> ref) list"
  translation_callback :: bool
  audio_chunk_callback :: bool
  error_callback :: bool
  workers :: "worker_state list"
  is_running :: bool

definition new_queue :: "int \<Rightarrow> real \<Rightarrow> translation_queue" where
  "new_queue mc dt =
     \<lparr> max_concurrent = mc, default_timeout = dt, objects = (\<lambda>r. None), next_ref = 0,
       pending_queue = [], active_tasks = [], completed_tasks = [],
       translation_callback = False, audio_chunk_callback = False, error_callback = False,
       workers = [], is_running = False \<rparr>"

definition set_callbacks :: "bool \<Rightarrow> bool \<Rightarrow> bool \<Rightarrow> translation_queue \<Rightarrow> translation_queue" where
  "set_callbacks tc acc ec q =
     q\<lparr> translation_callback := tc, audio_chunk_callback := acc, error_callback := ec \<rparr>"

definition start_workers :: "translation_queue \<Rightarrow> translation_queue" where
  "start_workers q =
     (if is_running q then q
      else q\<lparr> is_running := True,
              workers := workers q @ replicate (nat (max_concurrent q)) Polling \<rparr>)"

definition update_task ::
  "ref \<Rightarrow> (translation_task \<Rightarrow> translation_task) \<Rightarrow> translation_queue \<Rightarrow> translation_queue" where
  "update_task r f q = q\<lparr> objects := (objects q)(r := map_option f (objects q r)) \<rparr>"

definition dict_set :: "string \<Rightarrow> ref \<Rightarrow> (string \<times> ref) list \<Rightarrow> (string \<times> ref) list" where
  "dict_set k v d = (if k \<in> fst ` set d then map (\<lambda>(k', v'). if k' = k then (k, v) else (k', v')) d
                     else d @ [(k, v)])"

definition dict_del :: "string \<Rightarrow> (string \<times> ref) list \<Rightarrow> (string \<times> ref) list" where
  "dict_del k d = filter (\<lambda>(k', v'). k' \<noteq> k) d"

text \<open>\<^verbatim>\<open>_cleanup_old_tasks\<close>, with the reading of \<^verbatim>\<open>time.time()\<close> it takes.\<close>

definition cleanup_old_tasks :: "real \<Rightarrow> translation_queue \<Rightarrow> translation_queue" where
  "cleanup_old_tasks current_time q =
     q\<lparr> completed_tasks :=
          filter (\<lambda>(k, r). case objects q r of
                              None \<Rightarrow> True
                            | Some task \<Rightarrow> \<not> (current_time - created_at task > 300))
                 (completed_tasks q) \<rparr>"

text \<open>
  \<^verbatim>\<open>add_task\<close>. \<open>now\<close> is the reading that becomes \<^verbatim>\<open>created_at\<close>, \<open>current_time\<close> the one
  taken by the cleanup, \<open>new_id\<close> the value of \<^verbatim>\<open>uuid.uuid4()\<close>. A \<^verbatim>\<open>timeout\<close> that is
  \<^verbatim>\<open>None\<close> or zero is replaced by the default (\<^verbatim>\<open>timeout or self.default_timeout\<close>). With
  the queue at capacity the oldest task is taken out with
  \<^verbatim>\<open>wait_for(self.pending_queue.get(), timeout=0.1)\<close>, which times out on an empty queue.
\<close>

definition add_task ::
  "real \<Rightarrow> real \<Rightarrow> string \<Rightarrow> string \<Rightarrow> string \<Rightarrow> string list \<Rightarrow> string \<Rightarrow> real option
     \<Rightarrow> translation_queue \<Rightarrow> string \<times> translation_queue" where
  "add_task now current_time new_id text_in lang hw style timeout q =
     (let task = \<lparr> task_id = new_id, task_text = text_in, target_language = lang,
                   hot_words = hw, translation_style = style, status = PENDING,
                   created_at = now, started_at = None, completed_at = None,
                   result = None, error = None,
                   timeout_seconds = (case timeout of
                                        None \<Rightarrow> default_timeout q
                                      | Some t \<Rightarrow> if t = 0 then default_timeout q else t) \<rparr>;
          r = next_ref q;
          q0 = q\<lparr> objects := (objects q)(r \<mapsto> task), next_ref := Suc r \<rparr>;
          q1 = cleanup_old_tasks current_time q0;
          q2 = (if int (length (pending_queue q1)) \<ge> max_concurrent q1 then
                  (case pending_queue q1 of
                     [] \<Rightarrow> q1
                   | oldest_task # rest \<Rightarrow>
                       update_task oldest_task
                         (\<lambda>t. t\<lparr> status := FAILED, error := Some QueueOverflow \<rparr>)
                         (q1\<lparr> pending_queue := rest \<rparr>))
                else q1)
      in (task_id task, q2\<lparr> pending_queue := pending_queue q2 @ [r] \<rparr>))"

subsection \<open>Processing one task\<close>

text \<open>
  Everything \<^verbatim>\<open>_process_task\<close> gets from outside while it runs: whether the 35 second
  deadline around the translation expires first, what the HTTP request of the translator
  does, whether the translation callback raises (an \<^verbatim>\<open>asyncio.TimeoutError\<close>, which the
  first handler of \<^verbatim>\<open>_process_task\<close> catches, or another exception), what the provider
  does during the synthesis session, whether the audio-chunk callback raises on a given
  chunk, after how many events of the synthesis client
  the deadline of 40% of the task's timeout expires (\<open>None\<close>: it does not). An error
  callback that raises changes nothing in the queue: the \<^verbatim>\<open>finally\<close> block runs and the worker
  logs the exception.
\<close>

datatype callback_exn = CallbackTimeout | CallbackError string

record pipeline_env =
  translate_deadline :: bool
  http :: post_outcome
  translation_callback_raises :: "callback_exn option"
  tts :: session_env
  audio_callback_raises :: "byte list \<Rightarrow> bool \<Rightarrow> string \<Rightarrow> bool"
  tts_deadline :: "nat option"

text \<open>The invocations of the three callbacks of the queue.\<close>

datatype queue_event =
    TranslationCompleted string translation_result
  | AudioChunk string "byte list" bool string
  | ErrorNotified string exn

datatype outcome = Succeeded translation_result | DeadlineExceeded | Failed exn

text \<open>
  The inner \<^verbatim>\<open>chunk_callback\<close> of \<^verbatim>\<open>_process_task\<close>: the synthesis client always gets a
  callback; it forwards to \<^verbatim>\<open>self.audio_chunk_callback\<close> when that is set.
\<close>

definition forward_chunks :: "translation_queue \<Rightarrow> string \<Rightarrow> synth_event list \<Rightarrow> queue_event list" where
  "forward_chunks q tid evs =
     concat (map (\<lambda>e. case e of
                         Callback chunk final fmt \<Rightarrow>
                           if audio_chunk_callback q then [AudioChunk tid chunk final fmt] else []
                       | ErrorLog m \<Rightarrow> []) evs)"

text \<open>
  Step 2 of the \<^verbatim>\<open>try\<close> block (lines 247-283): synthesis under its deadline. A deadline
  that expires cancels the synthesis where it is suspended and raises
  \<^verbatim>\<open>asyncio.TimeoutError\<close>. The outcome is \<open>None\<close> when neither the deadline nor a return of
  \<^verbatim>\<open>text_to_speech\<close> is given by the environment; the events are those emitted so far.
\<close>

definition synthesis_step ::
  "decoder \<Rightarrow> decoder \<Rightarrow> translation_queue \<Rightarrow> translation_task \<Rightarrow> pipeline_env
     \<Rightarrow> translation_result \<Rightarrow> outcome option \<times> queue_event list" where
  "synthesis_step fromhex b64 q task env translation_result =
     (case text_to_speech fromhex b64 (tts env)
             (Some (\<lambda>chunk final fmt. audio_chunk_callback q \<and> audio_callback_raises env chunk final fmt)) of
        (returned, evs) \<Rightarrow>
          (case tts_deadline env of
             Some k \<Rightarrow> (Some DeadlineExceeded, forward_chunks q (task_id task) (take k evs))
           | None \<Rightarrow>
               (case returned of
                  None \<Rightarrow> (None, forward_chunks q (task_id task) evs)
                | Some None \<Rightarrow>
                    (Some (Succeeded translation_result), forward_chunks q (task_id task) evs)
                | Some (Some (audio_data, fmt)) \<Rightarrow>
                    (Some (Succeeded (translation_result\<lparr> audio_size := Some (length audio_data) \<rparr>)),
                     forward_chunks q (task_id task) evs))))"

text \<open>
  The \<^verbatim>\<open>try\<close> block of \<^verbatim>\<open>_process_task\<close> (lines 217-283), from the translation to the value
  of \<^verbatim>\<open>task.result\<close>, with the callbacks it invokes in order.
\<close>

definition run_pipeline ::
  "decoder \<Rightarrow> decoder \<Rightarrow> translation_queue \<Rightarrow> translation_task \<Rightarrow> pipeline_env
     \<Rightarrow> outcome option \<times> queue_event list" where
  "run_pipeline fromhex b64 q task env =
     (if translate_deadline env then (Some DeadlineExceeded, [])
      else (case translate_text (task_text task) (http env) of
              Inl e \<Rightarrow> (Some (Failed (TranslationError e)), [])
            | Inr translated \<Rightarrow>
                if translated = [] \<or> strip translated = [] then (Some (Failed EmptyTranslation), [])
                else
                  (let translation_result =
                         \<lparr> original_text = task_text task, translated_text = translated,
                           result_language = target_language task,
                           result_task_id = task_id task, audio_size = None \<rparr>
                   in if translation_callback q then
                        (case translation_callback_raises env of
                           Some CallbackTimeout \<Rightarrow>
                             (Some DeadlineExceeded,
                              [TranslationCompleted (task_id task) translation_result])
                         | Some (CallbackError m) \<Rightarrow>
                             (Some (Failed (CallbackRaised m)),
                              [TranslationCompleted (task_id task) translation_result])
                         | None \<Rightarrow>
                             (case synthesis_step fromhex b64 q task env translation_result of
                                (oc, evs) \<Rightarrow>
                                  (oc, TranslationCompleted (task_id task) translation_result # evs)))
                      else synthesis_step fromhex b64 q task env translation_result)))"

text \<open>Lines 209-211: the start of \<^verbatim>\<open>_process_task\<close>, up to its first suspension.\<close>

definition process_begin :: "real \<Rightarrow> ref \<Rightarrow> translation_queue \<Rightarrow> translation_queue" where
  "process_begin now r q =
     (case objects q r of
        None \<Rightarrow> q
      | Some task \<Rightarrow>
          (update_task r (\<lambda>t. t\<lparr> status := PROCESSING, started_at := Some now \<rparr>) q)
            \<lparr> active_tasks := dict_set (task_id task) r (active_tasks q) \<rparr>)"

text \<open>
  Lines 277-304: what the end of the \<^verbatim>\<open>try\<close> block and the two handlers write to the task.
\<close>

definition process_settle :: "outcome \<Rightarrow> real \<Rightarrow> ref \<Rightarrow> translation_queue \<Rightarrow> translation_queue" where
  "process_settle oc now r q =
     (case oc of
        Succeeded res \<Rightarrow>
          update_task r (\<lambda>t. t\<lparr> result := Some res, status := COMPLETED, completed_at := Some now \<rparr>) q
      | DeadlineExceeded \<Rightarrow>
          update_task r (\<lambda>t. t\<lparr> status := TIMEOUT, error := Some (TaskTimeoutAfter (timeout_seconds t)) \<rparr>) q
      | Failed e \<Rightarrow>
          update_task r (\<lambda>t. t\<lparr> status := FAILED, error := Some (Raised e) \<rparr>) q)"

text \<open>Lines 315-319: the \<^verbatim>\<open>finally\<close> block.\<close>

definition process_finally :: "ref \<Rightarrow> translation_queue \<Rightarrow> translation_queue" where
  "process_finally r q =
     (case objects q r of
        None \<Rightarrow> q
      | Some task \<Rightarrow>
          q\<lparr> active_tasks := dict_del (task_id task) (active_tasks q),
             completed_tasks := dict_set (task_id task) r (completed_tasks q) \<rparr>)"

definition error_events :: "translation_queue \<Rightarrow> translation_task \<Rightarrow> outcome \<Rightarrow> queue_event list" where
  "error_events q task oc =
     (case oc of
        Failed e \<Rightarrow> if error_callback q then [ErrorNotified (task_id task) e] else []
      | _ \<Rightarrow> [])"

text \<open>
  \<^verbatim>\<open>_process_task\<close> run from start to end with nothing else scheduled in between: the new
  state and the callbacks invoked, \<open>None\<close> when the environment does not make it return.
\<close>

definition process_task ::
  "decoder \<Rightarrow> decoder \<Rightarrow> pipeline_env \<Rightarrow> real \<Rightarrow> real \<Rightarrow> ref \<Rightarrow> translation_queue
     \<Rightarrow> (translation_queue \<times> queue_event list) option" where
  "process_task fromhex b64 env now_start now_end r q =
     (let q1 = process_begin now_start r q in
      case objects q1 r of
        None \<Rightarrow> None
      | Some task \<Rightarrow>
          (case run_pipeline fromhex b64 q1 task env of
             (None, evs) \<Rightarrow> None
           | (Some oc, evs) \<Rightarrow>
               Some (process_finally r (process_settle oc now_end r q1),
                     evs @ error_events q1 task oc)))"

subsection \<open>Workers, as steps between suspensions\<close>

text \<open>
  The coroutines run on one event loop, so the code between two \<^verbatim>\<open>await\<close>s runs without
  interruption and any other coroutine may run at an \<^verbatim>\<open>await\<close>. One iteration of \<^verbatim>\<open>_worker\<close>
  is cut at the suspensions of \<^verbatim>\<open>_process_task\<close> that matter for the queue's state:

  \<^item> \<open>worker_poll\<close>: a task is taken from the queue; a stale one is marked \<^verbatim>\<open>TIMEOUT\<close>, any
    other one is started, and the worker suspends in the translation call (\<open>now_check\<close> and
    \<open>now_start\<close> are the two readings of \<^verbatim>\<open>time.time()\<close>);
  \<^item> \<open>worker_settle\<close>: the \<^verbatim>\<open>try\<close> block is left, the terminal status is written, and either
    the \<^verbatim>\<open>finally\<close> block runs at once or the worker suspends in the error callback;
  \<^item> \<open>worker_finish\<close>: the \<^verbatim>\<open>finally\<close> block after the error callback.
\<close>

definition worker_poll :: "nat \<Rightarrow> real \<Rightarrow> real \<Rightarrow> translation_queue \<Rightarrow> translation_queue" where
  "worker_poll w now_check now_start q =
     (if w < length (workers q) \<and> workers q ! w = Polling \<and> is_running q then
        (case pending_queue q of
           [] \<Rightarrow> q
         | r # rest \<Rightarrow>
             (let q1 = q\<lparr> pending_queue := rest \<rparr> in
              case objects q1 r of
                None \<Rightarrow> q1
              | Some task \<Rightarrow>
                  if now_check - created_at task > timeout_seconds task then
                    update_task r (\<lambda>t. t\<lparr> status := TIMEOUT, error := Some TimeoutBeforeProcessing \<rparr>) q1
                  else (process_begin now_start r q1)\<lparr> workers := (workers q1)[w := Running r] \<rparr>))
      else q)"

definition worker_settle ::
  "decoder \<Rightarrow> decoder \<Rightarrow> nat \<Rightarrow> pipeline_env \<Rightarrow> real \<Rightarrow> translation_queue \<Rightarrow> translation_queue" where
  "worker_settle fromhex b64 w env now q =
     (if w < length (workers q) then
        (case workers q ! w of
           Running r \<Rightarrow>
             (case objects q r of
                None \<Rightarrow> q
              | Some task \<Rightarrow>
                  (case fst (run_pipeline fromhex b64 q task env) of
                     None \<Rightarrow> q
                   | Some (Failed e) \<Rightarrow>
                       if error_callback q then
                         (process_settle (Failed e) now r q)\<lparr> workers := (workers q)[w := Notifying r] \<rparr>
                       else
                         (process_finally r (process_settle (Failed e) now r q))
                           \<lparr> workers := (workers q)[w := Polling] \<rparr>
                   | Some oc \<Rightarrow>
                       (process_finally r (process_settle oc now r q))
                         \<lparr> workers := (workers q)[w := Polling] \<rparr>))
         | _ \<Rightarrow> q)
      else q)"

definition worker_finish :: "nat \<Rightarrow> translation_queue \<Rightarrow> translation_queue" where
  "worker_finish w q =
     (if w < length (workers q) then
        (case workers q ! w of
           Notifying r \<Rightarrow> (process_finally r q)\<lparr> workers := (workers q)[w := Polling] \<rparr>
         | _ \<Rightarrow> q)
      else q)"

subsection \<open>Clearing, status and statistics\<close>

text \<open>\<^verbatim>\<open>clear_pending_tasks\<close>.\<close>

definition clear_pending_tasks :: "translation_queue \<Rightarrow> translation_queue" where
  "clear_pending_tasks q =
     (let q1 = fold (\<lambda>r. update_task r (\<lambda>t. t\<lparr> status := FAILED, error := Some ClearedByUser \<rparr>))
                 (pending_queue q) (q\<lparr> pending_queue := [] \<rparr>);
          q2 = fold (\<lambda>(k, r). update_task r (\<lambda>t. t\<lparr> status := FAILED, error := Some CancelledByUser \<rparr>))
                 (active_tasks q1) q1
      in q2\<lparr> completed_tasks := [] \<rparr>)"

text \<open>
  \<^verbatim>\<open>get_task_status\<close>: the returned dictionary, \<open>None\<close> for \<^verbatim>\<open>None\<close>. \<^verbatim>\<open>duration\<close> tests its two
  operands for truth, and a time stamp of zero is false.
\<close>

record task_snapshot =
  snap_id :: string
  snap_status :: task_status
  snap_text :: string
  snap_target_language :: string
  snap_created_at :: real
  snap_started_at :: "real option"
  snap_completed_at :: "real option"
  snap_duration :: "real option"
  snap_error :: "error_text option"
  snap_result :: "translation_result option"

definition snapshot :: "translation_task \<Rightarrow> task_snapshot" where
  "snapshot task =
     \<lparr> snap_id = task_id task,
       snap_status = status task,
       snap_text = (if length (task_text task) > 100 then take 100 (task_text task) @ ''...''
                    else task_text task),
       snap_target_language = target_language task,
       snap_created_at = created_at task,
       snap_started_at = started_at task,
       snap_completed_at = completed_at task,
       snap_duration = (case (started_at task, completed_at task) of
                          (Some a, Some c) \<Rightarrow> if a \<noteq> 0 \<and> c \<noteq> 0 then Some (c - a) else None
                        | _ \<Rightarrow> None),
       snap_error = error task,
       snap_result = result task \<rparr>"

definition get_task_status :: "string \<Rightarrow> translation_queue \<Rightarrow> task_snapshot option" where
  "get_task_status tid q =
     (case map_of (active_tasks q) tid of
        Some r \<Rightarrow> map_option snapshot (objects q r)
      | None \<Rightarrow>
          (case map_of (completed_tasks q) tid of
             Some r \<Rightarrow> map_option snapshot (objects q r)
           | None \<Rightarrow> None))"

record queue_stats =
  pending_count :: int
  active_count :: int
  completed_count :: int
  stats_max_concurrent :: int
  stats_is_running :: bool
  workers_count :: int

definition get_queue_stats :: "translation_queue \<Rightarrow> queue_stats" where
  "get_queue_stats q =
     \<lparr> pending_count = int (length (pending_queue q)),
       active_count = int (length (active_tasks q)),
       completed_count = int (length (completed_tasks q)),
       stats_max_concurrent = max_concurrent q,
       stats_is_running = is_running q,
       workers_count = int (length (workers q)) \<rparr>"

subsection \<open>Runs of the scheduler\<close>

text \<open>
  What can happen to a queue object: a call of one of its public methods, or a step of one
  of its workers. A run is a sequence of these, applied to the state in order. A step that
  is not possible in a state (a worker that is not where the step needs it) leaves the
  state as it is.
\<close>

datatype action =
    SetCallbacks bool bool bool
  | StartWorkers
  | AddTask real real string string string "string list" string "real option"
  | Poll nat real real
  | Settle nat pipeline_env real
  | Finish nat
  | Clear

fun apply_action :: "decoder \<Rightarrow> decoder \<Rightarrow> action \<Rightarrow> translation_queue \<Rightarrow> translation_queue" where
  "apply_action fromhex b64 (SetCallbacks tc acc ec) q = set_callbacks tc acc ec q"
| "apply_action fromhex b64 StartWorkers q = start_workers q"
| "apply_action fromhex b64 (AddTask now current_time new_id text_in lang hw style timeout) q =
     snd (add_task now current_time new_id text_in lang hw style timeout q)"
| "apply_action fromhex b64 (Poll w now_check now_start) q = worker_poll w now_check now_start q"
| "apply_action fromhex b64 (Settle w env now) q = worker_settle fromhex b64 w env now q"
| "apply_action fromhex b64 (Finish w) q = worker_finish w q"
| "apply_action fromhex b64 Clear q = clear_pending_tasks q"

fun run :: "decoder \<Rightarrow> decoder \<Rightarrow> action list \<Rightarrow> translation_queue \<Rightarrow> translation_queue" where
  "run fromhex b64 [] q = q"
| "run fromhex b64 (a # as) q = run fromhex b64 as (apply_action fromhex b64 a q)"

text \<open>The readings of the clock an action takes, in the order it takes them.\<close>

fun readings :: "action \<Rightarrow> real list" where
  "readings (AddTask now current_time new_id text_in lang hw style timeout) = [now, current_time]"
| "readings (Poll w now_check now_start) = [now_check, now_start]"
| "readings (Settle w env now) = [now]"
| "readings a = []"

definition status_of :: "translation_queue \<Rightarrow> ref \<Rightarrow> task_status option" where
  "status_of q r = map_option status (objects q r)"

text \<open>The edges of the state machine, as the specification draws it.\<close>

definition spec_edge :: "task_status \<Rightarrow> task_status \<Rightarrow> bool" where
  "spec_edge a b =
     ((a = PENDING \<and> b = PROCESSING) \<or>
      (a = PROCESSING \<and> (b = COMPLETED \<or> b = FAILED \<or> b = TIMEOUT)))"

definition terminal :: "task_status \<Rightarrow> bool" where
  "terminal a = (a = COMPLETED \<or> a = FAILED \<or> a = TIMEOUT)"

text \<open>The changes of status the code makes on purpose: those of the specification, and from
  \<^verbatim>\<open>PENDING\<close> straight to \<^verbatim>\<open>FAILED\<close> (overflow, clearing) or \<^verbatim>\<open>TIMEOUT\<close> (stale task).\<close>

definition code_edge :: "task_status \<Rightarrow> task_status \<Rightarrow> bool" where
  "code_edge a b = (spec_edge a b \<or> (a = PENDING \<and> (b = FAILED \<or> b = TIMEOUT)))"

text \<open>A task is cancelled in flight when a worker is inside its \<^verbatim>\<open>try\<close> block and its status
  is already \<^verbatim>\<open>FAILED\<close>, which only \<^verbatim>\<open>clear_pending_tasks\<close> can have written.\<close>

definition cancelled_in_flight :: "translation_queue \<Rightarrow> ref \<Rightarrow> bool" where
  "cancelled_in_flight q r =
     (Running r \<in> set (workers q) \<and> status_of q r = Some FAILED)"

section \<open>Auxiliary notions and invariants\<close>

subsection \<open>Segmenter\<close>

text \<open>
  What holds of the segmenter after any sequence of frames of even length: an empty buffer
  comes with a zero silence counter and no speech in progress, and every buffered frame has
  an even number of bytes (so the conversion to 16-bit samples cannot fail).
\<close>

definition seg_inv :: "audio_processor \<Rightarrow> bool" where
  "seg_inv s = ((speech_frames s = [] \<longrightarrow> silence_frames s = 0 \<and> \<not> speech_started s) \<and>
                (\<forall>f \<in> set (speech_frames s). even (length f)))"

text \<open>The classifier raises on a frame.\<close>

definition vad_raises :: "vad \<Rightarrow> frame \<Rightarrow> bool" where
  "vad_raises is_speech f = (case is_speech f of Inl e \<Rightarrow> True | Inr verdict \<Rightarrow> False)"

subsection \<open>Synthesis client\<close>

text \<open>The callback invocations among the events: payload and final flag, in order.\<close>

fun callbacks :: "synth_event list \<Rightarrow> (byte list \<times> bool) list" where
  "callbacks [] = []"
| "callbacks (Callback chunk final fmt # es) = (chunk, final) # callbacks es"
| "callbacks (ErrorLog m # es) = callbacks es"

definition task_finished :: "message \<Rightarrow> bool" where
  "task_finished m = (msg_event m = Some ''task_finished'')"

definition task_failed :: "message \<Rightarrow> bool" where
  "task_failed m = (msg_event m = Some ''task_failed'')"

text \<open>The payload of a message decodes (or the message has none).\<close>

definition decodable :: "decoder \<Rightarrow> decoder \<Rightarrow> message \<Rightarrow> bool" where
  "decodable fromhex b64 m =
     (case msg_audio m of None \<Rightarrow> True | Some a \<Rightarrow> decode_audio fromhex b64 a \<noteq> None)"

text \<open>
  The sequence of receive outcomes ends the loop with a completion event: messages with
  decodable payloads, none of them a failure event, up to a \<^verbatim>\<open>task_finished\<close>.
\<close>

fun completes :: "decoder \<Rightarrow> decoder \<Rightarrow> recv list \<Rightarrow> bool" where
  "completes fromhex b64 (Msg m # rs) =
     (decodable fromhex b64 m \<and>
      (task_finished m \<or> (\<not> task_failed m \<and> completes fromhex b64 rs)))"
| "completes fromhex b64 rs = False"

text \<open>
  The sequence of receive outcomes keeps the loop running: messages with decodable
  payloads, none of them a completion or failure event.
\<close>

fun continues :: "decoder \<Rightarrow> decoder \<Rightarrow> recv list \<Rightarrow> bool" where
  "continues fromhex b64 [] = True"
| "continues fromhex b64 (Msg m # rs) =
     (decodable fromhex b64 m \<and> \<not> task_finished m \<and> \<not> task_failed m \<and>
      continues fromhex b64 rs)"
| "continues fromhex b64 (r # rs) = False"

text \<open>The chunk a message carries, if any, and the chunks received up to the completion
  event, in order, empty ones included.\<close>

definition payload :: "decoder \<Rightarrow> decoder \<Rightarrow> message \<Rightarrow> byte list list" where
  "payload fromhex b64 m =
     (case msg_audio m of
        None \<Rightarrow> []
      | Some a \<Rightarrow> (case decode_audio fromhex b64 a of None \<Rightarrow> [] | Some c \<Rightarrow> [c]))"

fun received :: "decoder \<Rightarrow> decoder \<Rightarrow> recv list \<Rightarrow> byte list list" where
  "received fromhex b64 (Msg m # rs) =
     payload fromhex b64 m
     @ (if task_finished m \<or> task_failed m then [] else received fromhex b64 rs)"
| "received fromhex b64 rs = []"

definition last_nonempty :: "byte list list \<Rightarrow> byte list" where
  "last_nonempty cs = (case filter (\<lambda>c. c \<noteq> []) cs of [] \<Rightarrow> [] | c # cs' \<Rightarrow> last (c # cs'))"

text \<open>How the local variables of the loop hang together.\<close>

definition synth_inv :: "synth_state \<Rightarrow> bool" where
  "synth_inv st =
     (total_chunks st = int (length (audio_chunks st)) \<and>
      (case last_chunk_info st of
         None \<Rightarrow> filter (\<lambda>c. c \<noteq> []) (audio_chunks st) = []
       | Some (c, f) \<Rightarrow> filter (\<lambda>c. c \<noteq> []) (audio_chunks st) \<noteq> [] \<and>
                        c = last (filter (\<lambda>c. c \<noteq> []) (audio_chunks st))))"

subsection \<open>Scheduler\<close>

definition is_translation_event :: "string \<Rightarrow> queue_event \<Rightarrow> bool" where
  "is_translation_event tid e = (case e of TranslationCompleted k res \<Rightarrow> k = tid | _ \<Rightarrow> False)"

definition is_audio_event :: "queue_event \<Rightarrow> bool" where
  "is_audio_event e = (case e of AudioChunk k chunk final fmt \<Rightarrow> True | _ \<Rightarrow> False)"

text \<open>The task object a worker holds in its local variable.\<close>

fun worker_ref :: "worker_state \<Rightarrow> ref option" where
  "worker_ref Polling = None"
| "worker_ref (Running r) = Some r"
| "worker_ref (Notifying r) = Some r"

definition in_flight :: "translation_queue \<Rightarrow> ref \<Rightarrow> bool" where
  "in_flight q r = (Some r \<in> worker_ref ` set (workers q))"

text \<open>
  What holds of the queue object in every run: addresses from \<open>next_ref\<close> on are free; the
  queue holds distinct tasks, all \<^verbatim>\<open>PENDING\<close>; a task inside the \<^verbatim>\<open>try\<close> block of a worker
  is \<^verbatim>\<open>PROCESSING\<close>, or \<^verbatim>\<open>FAILED\<close> when it was cancelled; a task whose error callback is
  awaited is \<^verbatim>\<open>FAILED\<close>; no two workers hold the same task; and \<^verbatim>\<open>active_tasks\<close> maps the
  identifiers of tasks held by workers to these tasks.
\<close>

definition queue_inv :: "translation_queue \<Rightarrow> bool" where
  "queue_inv q =
     ((\<forall>r. next_ref q \<le> r \<longrightarrow> objects q r = None) \<and>
      distinct (pending_queue q) \<and>
      (\<forall>r \<in> set (pending_queue q). status_of q r = Some PENDING) \<and>
      (\<forall>w < length (workers q). \<forall>r. workers q ! w = Running r \<longrightarrow>
          status_of q r = Some PROCESSING \<or> status_of q r = Some FAILED) \<and>
      (\<forall>w < length (workers q). \<forall>r. workers q ! w = Notifying r \<longrightarrow>
          status_of q r = Some FAILED) \<and>
      (\<forall>w < length (workers q). \<forall>w' < length (workers q).
          w \<noteq> w' \<longrightarrow> worker_ref (workers q ! w) \<noteq> None \<longrightarrow>
          worker_ref (workers q ! w) \<noteq> worker_ref (workers q ! w')) \<and>
      (\<forall>(k, r) \<in> set (active_tasks q).
          in_flight q r \<and> map_option task_id (objects q r) = Some k))"

text \<open>The task object \<^verbatim>\<open>add_task\<close> creates.\<close>

definition new_task :: "real \<Rightarrow> string \<Rightarrow> string \<Rightarrow> string \<Rightarrow> string list \<Rightarrow> string \<Rightarrow> real option
     \<Rightarrow> translation_queue \<Rightarrow> translation_task" where
  "new_task now new_id txt lang hw style timeout q =
     \<lparr> task_id = new_id, task_text = txt, target_language = lang,
       hot_words = hw, translation_style = style, status = PENDING,
       created_at = now, started_at = None, completed_at = None,
       result = None, error = None,
       timeout_seconds = (case timeout of
                            None \<Rightarrow> default_timeout q
                          | Some t \<Rightarrow> if t = 0 then default_timeout q else t) \<rparr>"

text \<open>The store after \<^verbatim>\<open>clear_pending_tasks\<close>.\<close>

definition cleared :: "translation_queue \<Rightarrow> ref \<Rightarrow> translation_task option" where
  "cleared q r =
     (if r \<in> snd ` set (active_tasks q) then
        map_option (\<lambda>t. t\<lparr> status := FAILED, error := Some CancelledByUser \<rparr>) (objects q r)
      else if r \<in> set (pending_queue q) then
        map_option (\<lambda>t. t\<lparr> status := FAILED, error := Some ClearedByUser \<rparr>) (objects q r)
      else objects q r)"

text \<open>What the end of \<^verbatim>\<open>_process_task\<close> writes to the task, by outcome.\<close>

definition settled :: "outcome \<Rightarrow> real \<Rightarrow> translation_task \<Rightarrow> translation_task" where
  "settled oc now t =
     (case oc of
        Succeeded res \<Rightarrow> t\<lparr> result := Some res, status := COMPLETED, completed_at := Some now \<rparr>
      | DeadlineExceeded \<Rightarrow> t\<lparr> status := TIMEOUT, error := Some (TaskTimeoutAfter (timeout_seconds t)) \<rparr>
      | Failed e \<Rightarrow> t\<lparr> status := FAILED, error := Some (Raised e) \<rparr>)"

text \<open>Worker \<open>w\<close> holds the task at \<open>r\<close>.\<close>

definition holds :: "translation_queue \<Rightarrow> nat \<Rightarrow> ref \<Rightarrow> bool" where
  "holds q w r = (w < length (workers q) \<and> worker_ref (workers q ! w) = Some r)"

text \<open>Every time stamp stored in a task is at most \<open>x\<close>.\<close>

definition task_le :: "translation_task \<Rightarrow> real \<Rightarrow> bool" where
  "task_le t x =
     (created_at t \<le> x \<and>
      (\<forall>a. started_at t = Some a \<longrightarrow> a \<le> x) \<and>
      (\<forall>c. completed_at t = Some c \<longrightarrow> c \<le> x))"

definition stamps_le :: "translation_queue \<Rightarrow> real \<Rightarrow> bool" where
  "stamps_le q x = (\<forall>r t. objects q r = Some t \<longrightarrow> task_le t x)"

text \<open>
  The time stamps of a task are in order, and \<^verbatim>\<open>completed_at\<close> is set exactly when the task
  is \<^verbatim>\<open>COMPLETED\<close>; this holds of every task, and a task held by a worker has been started.
\<close>

definition task_ok :: "translation_task \<Rightarrow> bool" where
  "task_ok t =
     ((\<forall>a. started_at t = Some a \<longrightarrow> created_at t \<le> a) \<and>
      (\<forall>c. completed_at t = Some c \<longrightarrow> (\<exists>a. started_at t = Some a \<and> a \<le> c)) \<and>
      ((completed_at t \<noteq> None) = (status t = COMPLETED)))"

definition stamps_ordered :: "translation_queue \<Rightarrow> bool" where
  "stamps_ordered q =
     ((\<forall>r t. objects q r = Some t \<longrightarrow> task_ok t) \<and>
      (\<forall>w r. holds q w r \<longrightarrow> (\<exists>t a. objects q r = Some t \<and> started_at t = Some a)))"

text \<open>
  The retention set holds terminal tasks that are neither queued nor held by a worker,
  each under its own identifier.
\<close>

definition completed_inv :: "translation_queue \<Rightarrow> bool" where
  "completed_inv q =
     (\<forall>k r. (k, r) \<in> set (completed_tasks q) \<longrightarrow>
        r \<notin> set (pending_queue q) \<and> (\<forall>w. \<not> holds q w r) \<and>
        (\<exists>t. objects q r = Some t \<and> task_id t = k \<and> terminal (status t)))"

text \<open>No task but the one at \<open>r\<close> has the identifier \<open>tid\<close>.\<close>

definition unique_id :: "translation_queue \<Rightarrow> string \<Rightarrow> ref \<Rightarrow> bool" where
  "unique_id q tid r = (\<forall>r' t'. objects q r' = Some t' \<and> task_id t' = tid \<longrightarrow> r' = r)"

text \<open>
  An action that leaves a retained task with identifier \<open>tid\<close>, created at \<open>c\<close>, in the
  retention set: anything but \<^verbatim>\<open>clear_pending_tasks\<close>, an \<^verbatim>\<open>add_task\<close> only with another
  identifier and with its cleanup run no later than 300 seconds after \<open>c\<close>.
\<close>

fun keeps :: "string \<Rightarrow> real \<Rightarrow> action \<Rightarrow> bool" where
  "keeps tid c Clear = False"
| "keeps tid c (AddTask now current_time new_id text_in lang hw style timeout) =
     (new_id \<noteq> tid \<and> current_time - c \<le> 300)"
| "keeps tid c a = True"

section \<open>Properties of the utterance segmenter\<close>

lemma frombuffer_int16_even: "even (length bs) \<Longrightarrow> \<exists>ws. frombuffer_int16 bs = Inr ws"
  by (induction bs rule: frombuffer_int16.induct) auto

lemma even_length_concat: "\<forall>f \<in> set fs. even (length f) \<Longrightarrow> even (length (concat fs))"
  by (induction fs) auto

lemma finalize_segment_ok:
  "\<forall>f \<in> set (speech_frames s). even (length f) \<Longrightarrow> \<exists>seg. finalize_segment s = Inr seg"
  using frombuffer_int16_even [OF even_length_concat, of "speech_frames s"]
  by (auto simp: finalize_segment_def)

lemma seg_inv_reset: "seg_inv (reset_state s)"
  by (simp add: seg_inv_def reset_state_def)

lemma process_frame_inv:
  "seg_inv s \<Longrightarrow> even (length f) \<Longrightarrow> seg_inv (snd (process_frame is_speech f s))"
  by (auto simp: process_frame_def seg_inv_def reset_state_def Let_def
           split: sum.splits bool.splits if_splits)

lemma process_frame_thresholds:
  "min_speech_frames (snd (process_frame is_speech f s)) = min_speech_frames s"
  by (auto simp: process_frame_def reset_state_def Let_def split: sum.splits bool.splits)

lemma feed_frames_inv:
  "seg_inv s \<Longrightarrow> \<forall>f \<in> set fs. even (length f) \<Longrightarrow> seg_inv (feed_frames is_speech fs s)"
  by (induction fs arbitrary: s) (auto intro: process_frame_inv)

lemma feed_frames_thresholds:
  "min_speech_frames (feed_frames is_speech fs s) = min_speech_frames s"
  by (induction fs arbitrary: s) (auto simp: process_frame_thresholds)

lemma seg_inv_new: "seg_inv (new_processor stf msf)"
  by (simp add: seg_inv_def new_processor_def)

lemma force_segment_cases:
  assumes "seg_inv s"
  shows "(\<exists>segment. force_segment s = Inr (Some segment, reset_state s) \<and>
            finalize_segment s = Inr segment \<and>
            min_speech_frames s \<le> int (length (speech_frames s)))
       \<or> (force_segment s = Inr (None, reset_state s) \<and>
            int (length (speech_frames s)) < min_speech_frames s)"
proof (cases "min_speech_frames s \<le> int (length (speech_frames s))")
  case True
  from assms obtain seg where "finalize_segment s = Inr seg"
    using finalize_segment_ok [of s] by (auto simp: seg_inv_def)
  with True show ?thesis by (simp add: force_segment_def)
next
  case False
  have "speech_frames s = [] \<Longrightarrow> reset_state s = s"
    using assms by (simp add: seg_inv_def reset_state_def)
  with False show ?thesis by (auto simp: force_segment_def)
qed

text \<open>
  Claim C8. After any sequence of frames (each an even number of bytes, as 16-bit audio is)
  fed to a new segmenter, \<^verbatim>\<open>force_segment\<close> does not raise and either returns the segment
  finalized from a buffer of at least \<^verbatim>\<open>min_speech_frames\<close> frames, or returns nothing with
  a buffer below the threshold; in both cases the state afterwards is the reset state.
\<close>

theorem force_segment_never_sub_threshold:
  assumes "\<forall>f \<in> set frames. even (length f)"
    and "s = feed_frames is_speech frames (new_processor stf msf)"
  shows "(\<exists>segment. force_segment s = Inr (Some segment, reset_state s) \<and>
            finalize_segment s = Inr segment \<and>
            msf \<le> int (length (speech_frames s)))
       \<or> (force_segment s = Inr (None, reset_state s) \<and>
            int (length (speech_frames s)) < msf)"
proof -
  have "seg_inv s"
    using assms by (simp add: feed_frames_inv seg_inv_new)
  moreover have "min_speech_frames s = msf"
    using assms by (simp add: feed_frames_thresholds new_processor_def)
  ultimately show ?thesis
    using force_segment_cases [of s] by simp
qed

theorem force_segment_never_sub_threshold_witness:
  "force_segment (feed_frames (\<lambda>f. Inr True) [[1, 2], [3, 4 :: byte]] (new_processor 15 2))
     = Inr (Some [normalize_sample 513, normalize_sample 1027], new_processor 15 2) \<and>
   force_segment (feed_frames (\<lambda>f. Inr True) [[1, 2], [3, 4]] (new_processor 15 3))
     = Inr (None, new_processor 15 3)"
proof -
  have h: "\<forall>f \<in> set [[1, 2], [3, 4 :: byte]]. even (length f)" by simp
  note a = force_segment_never_sub_threshold [OF h refl, of "\<lambda>f. Inr True" 15 2]
  note b = force_segment_never_sub_threshold [OF h refl, of "\<lambda>f. Inr True" 15 3]
  show ?thesis using a b
    by (simp add: process_frame_def new_processor_def reset_state_def finalize_segment_def
          force_segment_def word_cat_eq)
qed

text \<open>
  Claim C9 does not hold as stated: after one speech frame, with both thresholds at one
  frame, a silence frame ends the segment and emits it, while a frame on which the
  classifier raises leaves the state as it was, silence counter included.
\<close>

theorem vad_failure_ignored_counterexample:
  "process_frame (\<lambda>f. Inr False) [0, 0] (feed_frames (\<lambda>f. Inr True) [[0, 0]] (new_processor 1 1))
     = (Some [0, 0], new_processor 1 1) \<and>
   process_frame (\<lambda>f. Inl VadFailure) [0, 0] (feed_frames (\<lambda>f. Inr True) [[0, 0]] (new_processor 1 1))
     = (None, feed_frames (\<lambda>f. Inr True) [[0, 0]] (new_processor 1 1)) \<and>
   silence_frames (feed_frames (\<lambda>f. Inr True) [[0, 0]] (new_processor 1 1)) = 0 \<and>
   speech_started (feed_frames (\<lambda>f. Inr True) [[0, 0]] (new_processor 1 1))"
  by (simp add: process_frame_def new_processor_def reset_state_def finalize_segment_def
        normalize_sample_def word_cat_eq)

lemma process_frame_raises:
  "vad_raises is_speech f \<Longrightarrow> process_frame is_speech f s = (None, s)"
  by (auto simp: vad_raises_def process_frame_def split: sum.splits)

lemma process_frames_skip:
  "process_frames is_speech frames s =
     process_frames is_speech (filter (\<lambda>f. \<not> vad_raises is_speech f) frames) s"
proof (induction frames arbitrary: s)
  case Nil
  then show ?case by simp
next
  case (Cons f fs)
  show ?case
  proof (cases "vad_raises is_speech f")
    case True
    then show ?thesis
      using Cons.IH [of s] by (simp add: process_frame_raises)
  next
    case False
    then show ?thesis
      using Cons.IH by (simp split: prod.splits)
  qed
qed

text \<open>
  Claim C9, amended. A frame on which the classifier raises is skipped: the call returns no
  segment and leaves the state as it was, whether or not speech is in progress (the silence
  counter is not incremented and the silence threshold is not checked). So any sequence of
  frames yields the same segments and the same final state as the sequence without the
  frames on which the classifier raises.
\<close>

theorem vad_failure_ignored:
  "(vad_raises is_speech frame_data \<longrightarrow> process_frame is_speech frame_data s = (None, s)) \<and>
   process_frames is_speech frames s =
     process_frames is_speech (filter (\<lambda>f. \<not> vad_raises is_speech f) frames) s"
  using process_frame_raises [of is_speech frame_data s] process_frames_skip [of is_speech frames s]
  by simp

text \<open>
  The witness: speech is in progress after the frame \<^verbatim>\<open>[1, 0]\<close>, with both thresholds
  at one frame; the classifier raises on \<^verbatim>\<open>[9, 9]\<close>. The state stays the one after the speech
  frame, where a silence frame would have ended and emitted the segment.
\<close>

theorem vad_failure_ignored_witness:
  "process_frames
     (\<lambda>f. if f = [1, 0] then Inr True else if f = [0, 0] then Inr False else Inl VadFailure)
     [[1, 0], [9, 9], [9, 9]] (new_processor 1 1)
   = ([], \<lparr> speech_frames = [[1, 0]], silence_frames = 0, speech_started = True,
            silence_threshold_frames = 1, min_speech_frames = 1 \<rparr>) \<and>
   process_frame
     (\<lambda>f. if f = [1, 0] then Inr True else if f = [0, 0] then Inr False else Inl VadFailure)
     [9, 9]
     \<lparr> speech_frames = [[1, 0]], silence_frames = 0, speech_started = True,
       silence_threshold_frames = 1, min_speech_frames = 1 \<rparr>
   = (None, \<lparr> speech_frames = [[1, 0]], silence_frames = 0, speech_started = True,
              silence_threshold_frames = 1, min_speech_frames = 1 \<rparr>)"
  using vad_failure_ignored
          [of "\<lambda>f. if f = [1, 0] then Inr True else if f = [0, 0] then Inr False else Inl VadFailure"
              "[9, 9]"
              "\<lparr> speech_frames = [[1, 0]], silence_frames = 0, speech_started = True,
                 silence_threshold_frames = 1, min_speech_frames = 1 \<rparr>"
              "[]"]
        vad_failure_ignored
          [of "\<lambda>f. if f = [1, 0] then Inr True else if f = [0, 0] then Inr False else Inl VadFailure"
              "[9, 9]" "new_processor 1 1" "[[1, 0], [9, 9], [9, 9]]"]
  by (simp add: vad_raises_def process_frame_def new_processor_def)

section \<open>Properties of the synthesis client\<close>

lemma synth_inv_init: "synth_inv init_synth_state"
  by (simp add: synth_inv_def init_synth_state_def)

lemma callbacks_append: "callbacks (xs @ ys) = callbacks xs @ callbacks ys"
  by (induction xs rule: callbacks.induct) auto

lemma callbacks_invoke: "callbacks (invoke (Some raises) c fin f msg) = [(c, fin)]"
  by (simp add: invoke_def)

lemma last_filter_snoc:
  "c \<noteq> [] \<Longrightarrow> last (filter (\<lambda>c. c \<noteq> []) (cs @ [c])) = c"
  by simp

lemma handle_audio_step:
  assumes "synth_inv st" and "decodable fromhex b64 m"
  shows "\<exists>st' evs. handle_audio fromhex b64 (Some raises) m st = Some (st', evs) \<and>
           synth_inv st' \<and>
           audio_chunks st' = audio_chunks st @ payload fromhex b64 m \<and>
           callbacks evs = map (\<lambda>c. (c, False)) (payload fromhex b64 m)"
proof (cases "msg_audio m")
  case None
  then show ?thesis using assms by (simp add: handle_audio_def payload_def)
next
  case (Some a)
  with assms(2) obtain c where c: "decode_audio fromhex b64 a = Some c"
    by (auto simp: decodable_def)
  show ?thesis
  proof (cases "c = []")
    case True
    then show ?thesis
      using Some c assms(1)
      by (cases "msg_audio_format m")
         (auto simp: handle_audio_def payload_def synth_inv_def callbacks_invoke
            split: option.splits)
  next
    case False
    then show ?thesis
      using Some c assms(1)
      by (cases "msg_audio_format m")
         (simp_all add: handle_audio_def payload_def synth_inv_def callbacks_invoke)
  qed
qed

lemma handle_finished_final:
  assumes "synth_inv st"
  shows "callbacks (handle_finished (Some raises) st) = [(last_nonempty (audio_chunks st), True)]"
proof (cases "last_chunk_info st")
  case None
  then show ?thesis using assms
    by (simp add: handle_finished_def synth_inv_def last_nonempty_def callbacks_invoke)
next
  case (Some p)
  obtain c f where p: "p = (c, f)" by (cases p)
  from assms Some p have ne: "filter (\<lambda>c. c \<noteq> []) (audio_chunks st) \<noteq> []"
    and c: "c = last (filter (\<lambda>c. c \<noteq> []) (audio_chunks st))"
    and tc: "total_chunks st = int (length (audio_chunks st))"
    by (simp_all add: synth_inv_def)
  from ne have "audio_chunks st \<noteq> []" by auto
  with tc have "total_chunks st > 0" by simp
  then show ?thesis using Some p ne c
    by (simp add: handle_finished_def last_nonempty_def callbacks_invoke split: list.splits)
qed

lemma recv_loop_completes:
  assumes "completes fromhex b64 rs" and "synth_inv st"
  shows "\<exists>st' evs. recv_loop fromhex b64 (Some raises) rs st = (Some Break, st', evs) \<and>
           audio_chunks st' = audio_chunks st @ received fromhex b64 rs \<and>
           callbacks evs = map (\<lambda>c. (c, False)) (received fromhex b64 rs)
                             @ [(last_nonempty (audio_chunks st'), True)]"
  using assms
proof (induction rs arbitrary: st)
  case Nil
  then show ?case by simp
next
  case (Cons r rs)
  then obtain m where r: "r = Msg m" by (cases r) auto
  with Cons.prems have dec: "decodable fromhex b64 m" by simp
  from handle_audio_step [OF Cons.prems(2) dec, of raises]
  obtain st1 evs1 where h: "handle_audio fromhex b64 (Some raises) m st = Some (st1, evs1)"
    and inv1: "synth_inv st1"
    and ch1: "audio_chunks st1 = audio_chunks st @ payload fromhex b64 m"
    and cb1: "callbacks evs1 = map (\<lambda>c. (c, False)) (payload fromhex b64 m)"
    by blast
  show ?case
  proof (cases "task_finished m")
    case True
    then show ?thesis
      using h ch1 cb1 handle_finished_final [OF inv1, of raises]
      unfolding r
      by (simp add: task_finished_def callbacks_append)
  next
    case False
    with Cons.prems r have nf: "\<not> task_failed m" and rest: "completes fromhex b64 rs" by auto
    from Cons.IH [OF rest inv1]
    obtain st2 evs2 where l: "recv_loop fromhex b64 (Some raises) rs st1 = (Some Break, st2, evs2)"
      and ch2: "audio_chunks st2 = audio_chunks st1 @ received fromhex b64 rs"
      and cb2: "callbacks evs2 = map (\<lambda>c. (c, False)) (received fromhex b64 rs)
                             @ [(last_nonempty (audio_chunks st2), True)]"
      by blast
    show ?thesis
      using False nf h l ch1 ch2 cb1 cb2
      unfolding r
      by (simp add: task_finished_def task_failed_def callbacks_append)
  qed
qed

text \<open>
  Claim C3, amended. When the receive loop of \<^verbatim>\<open>synthesize_text\<close> ends with a completion
  event and a chunk callback is given, the call returns, and the callback has been invoked
  once for each received chunk with the final flag off, in order, and then exactly once
  more with the final flag on. That last invocation carries the bytes of the last received
  chunk that was not empty, and an empty payload when there is none.
\<close>

theorem final_callback_on_completion:
  assumes "completes fromhex b64 rs"
  shows "\<exists>ret evs. synthesize_text fromhex b64 True True (Some raises) rs = (Some (Inr ret), evs) \<and>
           callbacks evs = map (\<lambda>c. (c, False)) (received fromhex b64 rs)
                             @ [(last_nonempty (received fromhex b64 rs), True)]"
proof -
  from recv_loop_completes [OF assms synth_inv_init, of raises]
  obtain st' evs where l: "recv_loop fromhex b64 (Some raises) rs init_synth_state = (Some Break, st', evs)"
    and ch: "audio_chunks st' = audio_chunks init_synth_state @ received fromhex b64 rs"
    and cb: "callbacks evs = map (\<lambda>c. (c, False)) (received fromhex b64 rs)
                             @ [(last_nonempty (audio_chunks st'), True)]"
    by blast
  from ch have ch': "audio_chunks st' = received fromhex b64 rs"
    by (simp add: init_synth_state_def)
  show ?thesis
    using l cb ch' by (simp add: synthesize_text_def callbacks_append)
qed

text \<open>The definitions a concrete run of the client unfolds.\<close>

lemmas t2v_eval = synthesize_text_def init_synth_state_def handle_audio_def handle_finished_def
  handle_timeout_def decode_audio_def invoke_def hex_digit_def isspace_ascii_def b64decode_def
  b64_digit_def task_finished_def task_failed_def decodable_def last_nonempty_def payload_def

theorem final_callback_on_completion_witness:
  "\<exists>ret evs. synthesize_text bytes_fromhex b64decode True True (Some (\<lambda>c fin f. False))
       [Msg \<lparr> msg_audio = Some ''0a0b'', msg_audio_format = None, msg_event = None \<rparr>,
        Msg \<lparr> msg_audio = Some ''0c'', msg_audio_format = None, msg_event = Some ''task_finished'' \<rparr>]
     = (Some (Inr ret), evs) \<and>
     callbacks evs = [([10, 11], False), ([12], False), ([12], True)]"
  using final_callback_on_completion [of bytes_fromhex b64decode
       "[Msg \<lparr> msg_audio = Some ''0a0b'', msg_audio_format = None, msg_event = None \<rparr>,
        Msg \<lparr> msg_audio = Some ''0c'', msg_audio_format = None, msg_event = Some ''task_finished'' \<rparr>]"
       "\<lambda>c fin f. False"]
  by (simp add: t2v_eval)

text \<open>
  Claim C3 does not hold as stated. When the last received chunk is empty, the final
  callback carries the bytes of an earlier chunk; when the only received chunk is empty, the
  final callback is an empty marker although a chunk was received.
\<close>

theorem final_callback_on_completion_counterexample:
  "synthesize_text bytes_fromhex b64decode True True (Some (\<lambda>c fin f. False))
       [Msg \<lparr> msg_audio = Some ''0a0b'', msg_audio_format = None, msg_event = None \<rparr>,
        Msg \<lparr> msg_audio = Some '''', msg_audio_format = None, msg_event = None \<rparr>,
        Msg \<lparr> msg_audio = None, msg_audio_format = None, msg_event = Some ''task_finished'' \<rparr>]
     = (Some (Inr (Some ([10, 11], ''mp3''))),
        [Callback [10, 11] False ''mp3'', Callback [] False ''mp3'', Callback [10, 11] True ''mp3'']) \<and>
   synthesize_text bytes_fromhex b64decode True True (Some (\<lambda>c fin f. False))
       [Msg \<lparr> msg_audio = Some '''', msg_audio_format = None, msg_event = None \<rparr>,
        Msg \<lparr> msg_audio = None, msg_audio_format = None, msg_event = Some ''task_finished'' \<rparr>]
     = (Some (Inr (Some ([], ''mp3''))),
        [Callback [] False ''mp3'', Callback [] True ''mp3''])"
  by (simp add: t2v_eval)

text \<open>
  Claim C7 does not hold as stated. The payload \<^verbatim>\<open>zz\<close> decodes neither as hex nor as
  base64. A stream that starts with it ends there: the chunk and the completion event that
  follow are not processed, no callback is invoked and the call returns \<^verbatim>\<open>None\<close>, while
  the same stream without the malformed message delivers its chunk.
\<close>

theorem malformed_audio_ends_loop_counterexample:
  "synthesize_text bytes_fromhex b64decode True True (Some (\<lambda>c fin f. False))
       [Msg \<lparr> msg_audio = Some ''zz'', msg_audio_format = None, msg_event = None \<rparr>,
        Msg \<lparr> msg_audio = Some ''0a0b'', msg_audio_format = None, msg_event = None \<rparr>,
        Msg \<lparr> msg_audio = None, msg_audio_format = None, msg_event = Some ''task_finished'' \<rparr>]
     = (Some (Inr None), [ErrorLog ''T2V WebSocket error'', ErrorLog ''No audio chunks received'']) \<and>
   synthesize_text bytes_fromhex b64decode True True (Some (\<lambda>c fin f. False))
       [Msg \<lparr> msg_audio = Some ''0a0b'', msg_audio_format = None, msg_event = None \<rparr>,
        Msg \<lparr> msg_audio = None, msg_audio_format = None, msg_event = Some ''task_finished'' \<rparr>]
     = (Some (Inr (Some ([10, 11], ''mp3''))),
        [Callback [10, 11] False ''mp3'', Callback [10, 11] True ''mp3'']) \<and>
   bytes_fromhex ''zz'' = None \<and> b64decode ''zz'' = None"
  by (simp add: t2v_eval)

lemma recv_loop_continues:
  assumes "continues fromhex b64 pre" and "synth_inv st"
  shows "\<exists>st' evs.
           (\<forall>rest. recv_loop fromhex b64 (Some raises) (pre @ rest) st =
              (fst (recv_loop fromhex b64 (Some raises) rest st'),
               fst (snd (recv_loop fromhex b64 (Some raises) rest st')),
               evs @ snd (snd (recv_loop fromhex b64 (Some raises) rest st')))) \<and>
           audio_chunks st' = audio_chunks st @ received fromhex b64 pre \<and>
           callbacks evs = map (\<lambda>c. (c, False)) (received fromhex b64 pre)"
  using assms
proof (induction pre arbitrary: st)
  case Nil
  show ?case
    by (rule exI [of _ st], rule exI [of _ "[]"]) simp
next
  case (Cons r pre)
  then obtain m where r: "r = Msg m" by (cases r) auto
  with Cons.prems have dec: "decodable fromhex b64 m"
    and nf: "\<not> task_finished m" "\<not> task_failed m"
    and rest: "continues fromhex b64 pre" by auto
  from handle_audio_step [OF Cons.prems(2) dec, of raises]
  obtain st1 evs1 where h: "handle_audio fromhex b64 (Some raises) m st = Some (st1, evs1)"
    and inv1: "synth_inv st1"
    and ch1: "audio_chunks st1 = audio_chunks st @ payload fromhex b64 m"
    and cb1: "callbacks evs1 = map (\<lambda>c. (c, False)) (payload fromhex b64 m)"
    by auto
  from Cons.IH [OF rest inv1]
  obtain st2 evs2 where
    l: "\<And>rest. recv_loop fromhex b64 (Some raises) (pre @ rest) st1 =
              (fst (recv_loop fromhex b64 (Some raises) rest st2),
               fst (snd (recv_loop fromhex b64 (Some raises) rest st2)),
               evs2 @ snd (snd (recv_loop fromhex b64 (Some raises) rest st2)))"
    and ch2: "audio_chunks st2 = audio_chunks st1 @ received fromhex b64 pre"
    and cb2: "callbacks evs2 = map (\<lambda>c. (c, False)) (received fromhex b64 pre)"
    by auto
  have "\<forall>rest. recv_loop fromhex b64 (Some raises) ((r # pre) @ rest) st =
              (fst (recv_loop fromhex b64 (Some raises) rest st2),
               fst (snd (recv_loop fromhex b64 (Some raises) rest st2)),
               (evs1 @ evs2) @ snd (snd (recv_loop fromhex b64 (Some raises) rest st2)))"
    using nf h l unfolding r by (simp add: task_finished_def task_failed_def)
  moreover have "audio_chunks st2 = audio_chunks st @ received fromhex b64 (r # pre)"
    using nf ch1 ch2 unfolding r by simp
  moreover have "callbacks (evs1 @ evs2) = map (\<lambda>c. (c, False)) (received fromhex b64 (r # pre))"
    using nf cb1 cb2 unfolding r by (simp add: callbacks_append)
  ultimately show ?case
    by (intro exI [of _ st2] exI [of _ "evs1 @ evs2"] conjI)
qed

text \<open>
  Claim C7, amended. After any messages that keep the loop running, a message whose audio
  payload decodes neither as hex nor as base64 ends the loop: the chunk is not stored and
  not delivered, the error is logged, no final callback is sent, and whatever the provider
  sends afterwards is not processed (the call behaves as it does on a connection error at
  that point). \<^verbatim>\<open>synthesize_text\<close> returns the concatenation of the chunks received before
  the malformed message, or \<^verbatim>\<open>None\<close> when there were none.
\<close>

theorem malformed_audio_ends_loop:
  assumes "continues fromhex b64 pre"
    and "msg_audio m = Some a" and "fromhex a = None" and "b64 a = None"
  shows "\<exists>evs fmt.
           synthesize_text fromhex b64 True True (Some raises) (pre @ Msg m # rs)
             = (Some (Inr (if received fromhex b64 pre = [] then None
                           else Some (concat (received fromhex b64 pre), fmt))),
                evs) \<and>
           callbacks evs = map (\<lambda>c. (c, False)) (received fromhex b64 pre) \<and>
           ErrorLog ''T2V WebSocket error'' \<in> set evs \<and>
           synthesize_text fromhex b64 True True (Some raises) (pre @ Msg m # rs)
             = synthesize_text fromhex b64 True True (Some raises) (pre @ [RecvError])"
proof -
  from recv_loop_continues [OF assms(1) synth_inv_init, of raises]
  obtain st' evs where
    l: "\<And>rest. recv_loop fromhex b64 (Some raises) (pre @ rest) init_synth_state =
              (fst (recv_loop fromhex b64 (Some raises) rest st'),
               fst (snd (recv_loop fromhex b64 (Some raises) rest st')),
               evs @ snd (snd (recv_loop fromhex b64 (Some raises) rest st')))"
    and ch: "audio_chunks st' = audio_chunks init_synth_state @ received fromhex b64 pre"
    and cb: "callbacks evs = map (\<lambda>c. (c, False)) (received fromhex b64 pre)"
    by auto
  from ch have ch': "audio_chunks st' = received fromhex b64 pre"
    by (simp add: init_synth_state_def)
  have bad: "recv_loop fromhex b64 (Some raises) (Msg m # rs) st' =
               (Some Break, st', [ErrorLog ''T2V WebSocket error''])"
    using assms(2-4) by (simp add: handle_audio_def decode_audio_def)
  have err: "recv_loop fromhex b64 (Some raises) [RecvError] st' =
               (Some Break, st', [ErrorLog ''T2V WebSocket error''])"
    by simp
  have a: "recv_loop fromhex b64 (Some raises) (pre @ Msg m # rs) init_synth_state =
             (Some Break, st', evs @ [ErrorLog ''T2V WebSocket error''])"
    unfolding l [of "Msg m # rs"] bad by simp
  have b: "recv_loop fromhex b64 (Some raises) (pre @ [RecvError]) init_synth_state =
             (Some Break, st', evs @ [ErrorLog ''T2V WebSocket error''])"
    unfolding l [of "[RecvError]"] err by simp
  show ?thesis
  proof (cases "received fromhex b64 pre = []")
    case True
    then show ?thesis
      using a b cb ch' by (simp add: synthesize_text_def callbacks_append)
  next
    case False
    then show ?thesis
      using a b cb ch' by (simp add: synthesize_text_def callbacks_append)
  qed
qed

theorem malformed_audio_ends_loop_witness:
  "synthesize_text bytes_fromhex b64decode True True (Some (\<lambda>c fin f. False))
     ([Msg \<lparr> msg_audio = Some ''0a0b'', msg_audio_format = None, msg_event = None \<rparr>]
      @ Msg \<lparr> msg_audio = Some ''zz'', msg_audio_format = None, msg_event = None \<rparr>
      # [Msg \<lparr> msg_audio = Some ''0c'', msg_audio_format = None, msg_event = Some ''task_finished'' \<rparr>])
   = (Some (Inr (Some ([10, 11], ''mp3''))),
      [Callback [10, 11] False ''mp3'', ErrorLog ''T2V WebSocket error''])"
  using malformed_audio_ends_loop
          [of bytes_fromhex b64decode
              "[Msg \<lparr> msg_audio = Some ''0a0b'', msg_audio_format = None, msg_event = None \<rparr>]"
              "\<lparr> msg_audio = Some ''zz'', msg_audio_format = None, msg_event = None \<rparr>"
              "''zz''" "\<lambda>c fin f. False"
              "[Msg \<lparr> msg_audio = Some ''0c'', msg_audio_format = None, msg_event = Some ''task_finished'' \<rparr>]"]
  by (simp add: t2v_eval)

section \<open>Properties of the scheduler\<close>

subsection \<open>The translator and the pipeline of one task\<close>

lemma dropWhile_strip_head: "strip s \<noteq> [] \<Longrightarrow> \<not> isspace (hd (strip s)) \<and> \<not> isspace (last (strip s))"
  unfolding strip_def
  by (metis dropWhile_eq_Nil_conv hd_dropWhile hd_rev last_rev rev_is_Nil_conv
        dropWhile_append3 append_Nil2 last_appendR last_in_set set_rev
        append_take_drop_id dropWhile_eq_drop set_dropWhileD hd_in_set in_set_conv_decomp)

lemma strip_idem: "strip (strip s) = strip s"
proof (cases "strip s = []")
  case True
  have "strip [] = []" by (simp add: strip_def)
  with True show ?thesis by simp
next
  case False
  then have h: "\<not> isspace (hd (strip s))" and l: "\<not> isspace (last (strip s))"
    using dropWhile_strip_head by auto
  from False h have a: "dropWhile isspace (strip s) = strip s"
    by (cases "strip s") auto
  from False l have b: "dropWhile isspace (rev (strip s)) = rev (strip s)"
    by (cases "rev (strip s)") (auto simp: last_rev hd_rev dest: arg_cong [where f = hd])
  show ?thesis
    unfolding strip_def [of "strip s"] a b by simp
qed


text \<open>
  Claim C10. When the streamed response of the provider yields no content (nothing but
  white space), \<^verbatim>\<open>translate_text\<close> returns the input text unchanged; whenever it returns a
  text that is empty or white space, so was the input; and the empty-result failure of
  \<^verbatim>\<open>_process_task\<close> only occurs for a task whose text is empty or white space.
\<close>

theorem empty_translation_only_for_blank_input:
  "(read_stream ls [] = Inr content \<and> strip content = [] \<longrightarrow>
      translate_text text_in (Response 200 body ls) = Inr text_in) \<and>
   (translate_text text_in outcome = Inr translated \<and> (translated = [] \<or> strip translated = []) \<longrightarrow>
      strip text_in = []) \<and>
   (fst (run_pipeline fromhex b64 q task env) = Some (Failed EmptyTranslation) \<longrightarrow>
      strip (task_text task) = [])"
proof -
  have blank: "strip [] = []" by (simp add: strip_def)
  have a: "translate_text t oc = Inr tr \<Longrightarrow> tr = [] \<or> strip tr = [] \<Longrightarrow> strip t = []" for t oc tr
    using blank
    by (auto simp: translate_text_def translate_sync_def strip_idem
             split: post_outcome.splits if_splits sum.splits)
  have b: "fst (run_pipeline fromhex b64 q task env) = Some (Failed EmptyTranslation) \<Longrightarrow>
             strip (task_text task) = []"
    using a [of "task_text task" "http env"]
    by (auto simp: run_pipeline_def synthesis_step_def Let_def
             split: if_splits sum.splits option.splits prod.splits callback_exn.splits)
  show ?thesis
    using a b by (auto simp: translate_text_def translate_sync_def)
qed


text \<open>The definitions a concrete run of the pipeline unfolds.\<close>

lemmas pipeline_eval = run_pipeline_def synthesis_step_def text_to_speech_def forward_chunks_def
  translate_text_def translate_sync_def strip_def isspace_def connect_log_def start_log_def
  close_log_def

theorem empty_translation_only_for_blank_input_witness:
  "translate_text ''hi'' (Response 200 [] [EmptyLine, Choice '' '' True]) = Inr ''hi'' \<and>
   fst (run_pipeline bytes_fromhex b64decode (new_queue 3 45)
          \<lparr> task_id = ''a'', task_text = '' '', target_language = ''English'', hot_words = [],
            translation_style = ''default'', status = PROCESSING, created_at = 0,
            started_at = Some 1, completed_at = None, result = None, error = None,
            timeout_seconds = 45 \<rparr>
          \<lparr> translate_deadline = False, http = Response 200 [] [],
            translation_callback_raises = None,
            tts = \<lparr> connect_result = Connected, start_result = Started, sends_ok = True,
                    recvs = [], finish_result = FinishReplied, close_ok = True \<rparr>,
            audio_callback_raises = (\<lambda>c fin f. False), tts_deadline = None \<rparr>)
     = Some (Failed EmptyTranslation) \<and>
   strip '' '' = []"
  using empty_translation_only_for_blank_input
          [of "[EmptyLine, Choice '' '' True]" "'' ''" "''hi''" "[]" "Response 200 [] []" "'' ''"
              bytes_fromhex b64decode "new_queue 3 45"
              "\<lparr> task_id = ''a'', task_text = '' '', target_language = ''English'', hot_words = [],
                 translation_style = ''default'', status = PROCESSING, created_at = 0,
                 started_at = Some 1, completed_at = None, result = None, error = None,
                 timeout_seconds = 45 \<rparr>"
              "\<lparr> translate_deadline = False, http = Response 200 [] [],
                 translation_callback_raises = None,
                 tts = \<lparr> connect_result = Connected, start_result = Started, sends_ok = True,
                         recvs = [], finish_result = FinishReplied, close_ok = True \<rparr>,
                 audio_callback_raises = (\<lambda>c fin f. False), tts_deadline = None \<rparr>"]
  by (simp add: pipeline_eval)

lemma forward_chunks_audio:
  "e \<in> set (forward_chunks q tid es) \<Longrightarrow> is_audio_event e"
  by (induction es) (auto simp: forward_chunks_def is_audio_event_def split: synth_event.splits if_splits)

lemma synthesis_step_events:
  "\<exists>es. snd (synthesis_step fromhex b64 q task env res) = forward_chunks q (task_id task) es"
proof -
  obtain returned evs where t: "text_to_speech fromhex b64 (tts env)
             (Some (\<lambda>chunk final fmt. audio_chunk_callback q \<and> audio_callback_raises env chunk final fmt))
             = (returned, evs)"
    by (rule prod.exhaust)
  show ?thesis
  proof (cases "tts_deadline env")
    case (Some k)
    with t show ?thesis unfolding synthesis_step_def by auto
  next
    case None
    show ?thesis
    proof (cases returned)
      case None
      with t \<open>tts_deadline env = None\<close> show ?thesis unfolding synthesis_step_def by auto
    next
      case (Some a)
      with t \<open>tts_deadline env = None\<close> show ?thesis
        unfolding synthesis_step_def by (cases a) auto
    qed
  qed
qed

lemma synthesis_step_audio:
  "e \<in> set (snd (synthesis_step fromhex b64 q task env res)) \<Longrightarrow> is_audio_event e"
  using synthesis_step_events [of fromhex b64 q task env res] forward_chunks_audio
  by metis

lemma run_pipeline_deadline:
  "translate_deadline env \<Longrightarrow> run_pipeline fromhex b64 q task env = (Some DeadlineExceeded, [])"
  by (simp add: run_pipeline_def)

lemma run_pipeline_error:
  "\<not> translate_deadline env \<Longrightarrow> translate_text (task_text task) (http env) = Inl e \<Longrightarrow>
     run_pipeline fromhex b64 q task env = (Some (Failed (TranslationError e)), [])"
  by (simp add: run_pipeline_def)

lemma run_pipeline_blank:
  "\<not> translate_deadline env \<Longrightarrow> translate_text (task_text task) (http env) = Inr translated \<Longrightarrow>
     translated = [] \<or> strip translated = [] \<Longrightarrow>
     run_pipeline fromhex b64 q task env = (Some (Failed EmptyTranslation), [])"
  by (simp add: run_pipeline_def)

lemma run_pipeline_callback_raises:
  "\<not> translate_deadline env \<Longrightarrow> translate_text (task_text task) (http env) = Inr translated \<Longrightarrow>
     \<not> (translated = [] \<or> strip translated = []) \<Longrightarrow> translation_callback q \<Longrightarrow>
     translation_callback_raises env = Some x \<Longrightarrow>
     run_pipeline fromhex b64 q task env =
       ((case x of CallbackTimeout \<Rightarrow> Some DeadlineExceeded
                 | CallbackError m \<Rightarrow> Some (Failed (CallbackRaised m))),
        [TranslationCompleted (task_id task)
           \<lparr> original_text = task_text task, translated_text = translated,
             result_language = target_language task,
             result_task_id = task_id task, audio_size = None \<rparr>])"
  by (cases x) (simp_all add: run_pipeline_def)

lemma run_pipeline_synthesis:
  "\<not> translate_deadline env \<Longrightarrow> translate_text (task_text task) (http env) = Inr translated \<Longrightarrow>
     \<not> (translated = [] \<or> strip translated = []) \<Longrightarrow> translation_callback q \<Longrightarrow>
     translation_callback_raises env = None \<Longrightarrow>
     res = \<lparr> original_text = task_text task, translated_text = translated,
             result_language = target_language task,
             result_task_id = task_id task, audio_size = None \<rparr> \<Longrightarrow>
     run_pipeline fromhex b64 q task env =
       (fst (synthesis_step fromhex b64 q task env res),
        TranslationCompleted (task_id task) res # snd (synthesis_step fromhex b64 q task env res))"
  by (simp add: run_pipeline_def Let_def case_prod_beta)

text \<open>The shape of the events of the \<^verbatim>\<open>try\<close> block when the translation callback is set:
  none, or the translation event followed by audio-chunk events only.\<close>

lemma run_pipeline_shape:
  assumes "translation_callback q"
    and "run_pipeline fromhex b64 q task env = (oc, evs)"
  shows "(evs = [] \<and> (\<forall>res. oc \<noteq> Some (Succeeded res))) \<or>
         (\<exists>r. evs = [TranslationCompleted (task_id task) r] \<and> (\<forall>res. oc \<noteq> Some (Succeeded res))) \<or>
         (\<exists>r evs'. evs = TranslationCompleted (task_id task) r # evs' \<and>
                    (\<forall>e \<in> set evs'. is_audio_event e) \<and> translation_callback_raises env = None)"
proof (cases "translate_deadline env")
  case True
  from run_pipeline_deadline [OF True, of fromhex b64 q task] assms(2)
  have "evs = []" and "oc = Some DeadlineExceeded" by simp_all
  then show ?thesis by simp
next
  case False
  show ?thesis
  proof (cases "translate_text (task_text task) (http env)")
    case (Inl e)
    from run_pipeline_error [OF False Inl, of fromhex b64 q] assms(2)
    have "evs = []" and "oc = Some (Failed (TranslationError e))" by simp_all
    then show ?thesis by simp
  next
    case (Inr translated)
    show ?thesis
    proof (cases "translated = [] \<or> strip translated = []")
      case True
      from run_pipeline_blank [OF False Inr True, of fromhex b64 q] assms(2)
      have "evs = []" and "oc = Some (Failed EmptyTranslation)" by simp_all
      then show ?thesis by simp
    next
      case nonblank: False
      define res where "res = \<lparr> original_text = task_text task, translated_text = translated,
                           result_language = target_language task,
                           result_task_id = task_id task, audio_size = None \<rparr>"
      show ?thesis
      proof (cases "translation_callback_raises env")
        case (Some x)
        from run_pipeline_callback_raises [OF False Inr nonblank assms(1) Some, of fromhex b64]
          assms(2)
        have "oc = (case x of CallbackTimeout \<Rightarrow> Some DeadlineExceeded
                            | CallbackError m \<Rightarrow> Some (Failed (CallbackRaised m)))"
          and "evs = [TranslationCompleted (task_id task) res]"
          by (simp_all add: res_def)
        then show ?thesis by (cases x) simp_all
      next
        case None
        define evs' where "evs' = snd (synthesis_step fromhex b64 q task env res)"
        from run_pipeline_synthesis [OF False Inr nonblank assms(1) None res_def, of fromhex b64]
          assms(2)
        have evs: "evs = TranslationCompleted (task_id task) res # evs'"
          by (simp add: evs'_def)
        have aud: "\<forall>e \<in> set evs'. is_audio_event e"
          using synthesis_step_audio [of _ fromhex b64 q task env res]
          by (simp add: evs'_def)
        from evs aud None show ?thesis by simp
      qed
    qed
  qed
qed

text \<open>
  Claim C2 does not hold as stated: the callbacks are optional. On a queue with only the
  audio-chunk and error callbacks set, a task reaches the success path and its audio chunks
  are delivered without any translation callback having been invoked.
\<close>

theorem translation_precedes_audio_counterexample:
  "run_pipeline bytes_fromhex b64decode (set_callbacks False True True (new_queue 3 45))
          \<lparr> task_id = ''a'', task_text = ''ni hao'', target_language = ''English'', hot_words = [],
            translation_style = ''default'', status = PROCESSING, created_at = 0,
            started_at = Some 1, completed_at = None, result = None, error = None,
            timeout_seconds = 45 \<rparr>
          \<lparr> translate_deadline = False, http = Response 200 [] [Choice ''hello'' True],
            translation_callback_raises = None,
            tts = \<lparr> connect_result = Connected, start_result = Started, sends_ok = True,
                    recvs = [Msg \<lparr> msg_audio = Some ''0a0b'', msg_audio_format = None, msg_event = None \<rparr>,
                             Msg \<lparr> msg_audio = None, msg_audio_format = None, msg_event = Some ''task_finished'' \<rparr>],
                    finish_result = FinishReplied, close_ok = True \<rparr>,
            audio_callback_raises = (\<lambda>c fin f. False), tts_deadline = None \<rparr>
     = (Some (Succeeded \<lparr> original_text = ''ni hao'', translated_text = ''hello'',
                          result_language = ''English'', result_task_id = ''a'',
                          audio_size = Some 2 \<rparr>),
        [AudioChunk ''a'' [10, 11] False ''mp3'',
         AudioChunk ''a'' [10, 11] True ''mp3''])"
  by (simp add: pipeline_eval t2v_eval set_callbacks_def new_queue_def)

text \<open>
  Claim C2, amended. With a translation callback set, in every run of the \<^verbatim>\<open>try\<close> block of
  \<^verbatim>\<open>_process_task\<close>, finished or not: a run that succeeds has invoked the translation
  callback first, and it returned; and whenever an audio-chunk callback is invoked, the
  first invocation of the run is the translation callback of the same task, it returned
  normally, and it is the only invocation before and between the audio chunks.
\<close>

theorem translation_precedes_audio:
  assumes "translation_callback q"
    and "run_pipeline fromhex b64 q task env = (oc, evs)"
  shows "(\<forall>res. oc = Some (Succeeded res) \<longrightarrow>
            (\<exists>r. evs \<noteq> [] \<and> evs ! 0 = TranslationCompleted (task_id task) r) \<and>
            translation_callback_raises env = None) \<and>
         (\<forall>i < length evs. is_audio_event (evs ! i) \<longrightarrow>
            0 < i \<and> is_translation_event (task_id task) (evs ! 0) \<and>
            (\<forall>j < length evs. 0 < j \<longrightarrow> is_audio_event (evs ! j)) \<and>
            translation_callback_raises env = None)"
  using run_pipeline_shape [OF assms]
proof (elim disjE exE conjE)
  assume "evs = []" and "\<forall>res. oc \<noteq> Some (Succeeded res)"
  then show ?thesis by simp
next
  fix r
  assume evs: "evs = [TranslationCompleted (task_id task) r]"
    and oc: "\<forall>res. oc \<noteq> Some (Succeeded res)"
  have "\<not> is_audio_event (evs ! 0)"
    using evs by (simp add: is_audio_event_def)
  moreover have "length evs = 1" using evs by simp
  ultimately show ?thesis using oc by simp
next
  fix r evs'
  assume evs: "evs = TranslationCompleted (task_id task) r # evs'"
    and aud: "\<forall>e \<in> set evs'. is_audio_event e"
    and ret: "translation_callback_raises env = None"
  have later: "is_audio_event (evs ! j)" if "j < length evs" and "0 < j" for j
  proof -
    from that evs obtain k where "j = Suc k" and "k < length evs'"
      by (cases j) auto
    with evs aud show ?thesis by simp
  qed
  have pos: "0 < i" if "is_audio_event (evs ! i)" for i
  proof (cases i)
    case 0
    with that evs show ?thesis by (simp add: is_audio_event_def)
  next
    case (Suc k)
    then show ?thesis by simp
  qed
  have succ: "\<exists>r. evs \<noteq> [] \<and> evs ! 0 = TranslationCompleted (task_id task) r"
    using evs by simp
  have tr0: "is_translation_event (task_id task) (evs ! 0)"
    using evs by (simp add: is_translation_event_def)
  show ?thesis
  proof (intro conjI allI impI)
    show "\<exists>r. evs \<noteq> [] \<and> evs ! 0 = TranslationCompleted (task_id task) r" by (rule succ)
  next
    show "translation_callback_raises env = None" by (rule ret)
  next
    fix i assume "is_audio_event (evs ! i)"
    then show "0 < i" by (rule pos)
  next
    show "is_translation_event (task_id task) (evs ! 0)" by (rule tr0)
  next
    fix j assume "j < length evs" and "0 < j"
    then show "is_audio_event (evs ! j)" by (rule later)
  next
    show "translation_callback_raises env = None" by (rule ret)
  qed
qed

theorem translation_precedes_audio_witness:
  "run_pipeline bytes_fromhex b64decode (set_callbacks True True True (new_queue 3 45))
          \<lparr> task_id = ''a'', task_text = ''ni hao'', target_language = ''English'', hot_words = [],
            translation_style = ''default'', status = PROCESSING, created_at = 0,
            started_at = Some 1, completed_at = None, result = None, error = None,
            timeout_seconds = 45 \<rparr>
          \<lparr> translate_deadline = False, http = Response 200 [] [Choice ''hello'' True],
            translation_callback_raises = None,
            tts = \<lparr> connect_result = Connected, start_result = Started, sends_ok = True,
                    recvs = [Msg \<lparr> msg_audio = Some ''0a0b'', msg_audio_format = None, msg_event = None \<rparr>,
                             Msg \<lparr> msg_audio = None, msg_audio_format = None, msg_event = Some ''task_finished'' \<rparr>],
                    finish_result = FinishReplied, close_ok = True \<rparr>,
            audio_callback_raises = (\<lambda>c fin f. False), tts_deadline = None \<rparr>
     = (Some (Succeeded \<lparr> original_text = ''ni hao'', translated_text = ''hello'',
                          result_language = ''English'', result_task_id = ''a'',
                          audio_size = Some 2 \<rparr>),
        [TranslationCompleted ''a'' \<lparr> original_text = ''ni hao'', translated_text = ''hello'',
                          result_language = ''English'', result_task_id = ''a'',
                          audio_size = None \<rparr>,
         AudioChunk ''a'' [10, 11] False ''mp3'',
         AudioChunk ''a'' [10, 11] True ''mp3''])"
    (is "?lhs = ?rhs")
proof -
  have tc: "translation_callback (set_callbacks True True True (new_queue 3 45))"
    by (simp add: set_callbacks_def new_queue_def)
  have run: "?lhs = ?rhs"
    by (simp add: pipeline_eval t2v_eval set_callbacks_def new_queue_def)
  from translation_precedes_audio [OF tc run] run show ?thesis by simp
qed

subsection \<open>What each operation does to the fields of the queue\<close>

lemma update_task_fields [simp]:
  "objects (update_task r f q) = (objects q)(r := map_option f (objects q r))"
  "next_ref (update_task r f q) = next_ref q"
  "pending_queue (update_task r f q) = pending_queue q"
  "active_tasks (update_task r f q) = active_tasks q"
  "completed_tasks (update_task r f q) = completed_tasks q"
  "workers (update_task r f q) = workers q"
  "max_concurrent (update_task r f q) = max_concurrent q"
  "is_running (update_task r f q) = is_running q"
  "error_callback (update_task r f q) = error_callback q"
  by (simp_all add: update_task_def)

lemma fold_update_task:
  assumes "\<And>t. f (f t) = f t"
  shows "fold (\<lambda>x. update_task (g x) f) xs q =
           q\<lparr> objects := (\<lambda>r. if r \<in> g ` set xs then map_option f (objects q r) else objects q r) \<rparr>"
proof (induction xs arbitrary: q)
  case Nil
  then show ?case by simp
next
  case (Cons x xs)
  let ?q1 = "update_task (g x) f q"
  let ?F = "\<lambda>r. if r \<in> g ` set (x # xs) then map_option f (objects q r) else objects q r"
  have h: "(\<lambda>r. if r \<in> g ` set xs then map_option f (objects ?q1 r) else objects ?q1 r) = ?F"
    by (auto simp: fun_eq_iff option.map_comp assms comp_def)
  have "fold (\<lambda>x. update_task (g x) f) (x # xs) q = fold (\<lambda>x. update_task (g x) f) xs ?q1"
    by simp
  also have "\<dots> = ?q1\<lparr> objects := ?F \<rparr>"
    unfolding Cons.IH h ..
  also have "\<dots> = q\<lparr> objects := ?F \<rparr>"
    by (simp add: update_task_def)
  finally show ?case .
qed

lemma clear_pending_tasks_fields:
  "objects (clear_pending_tasks q) = cleared q"
  "pending_queue (clear_pending_tasks q) = []"
  "completed_tasks (clear_pending_tasks q) = []"
  "active_tasks (clear_pending_tasks q) = active_tasks q"
  "workers (clear_pending_tasks q) = workers q"
  "next_ref (clear_pending_tasks q) = next_ref q"
  "max_concurrent (clear_pending_tasks q) = max_concurrent q"
proof -
  have a: "fold (\<lambda>r. update_task r (\<lambda>t. t\<lparr> status := FAILED, error := Some ClearedByUser \<rparr>)) xs q0 =
        q0\<lparr> objects := (\<lambda>r. if r \<in> set xs
                  then map_option (\<lambda>t. t\<lparr> status := FAILED, error := Some ClearedByUser \<rparr>) (objects q0 r)
                  else objects q0 r) \<rparr>" for xs q0
    using fold_update_task [of "\<lambda>t. t\<lparr> status := FAILED, error := Some ClearedByUser \<rparr>" "\<lambda>x. x" xs q0]
    by simp
  have b: "fold (\<lambda>(k, r). update_task r (\<lambda>t. t\<lparr> status := FAILED, error := Some CancelledByUser \<rparr>)) xs q0 =
        q0\<lparr> objects := (\<lambda>r. if r \<in> snd ` set xs
                  then map_option (\<lambda>t. t\<lparr> status := FAILED, error := Some CancelledByUser \<rparr>) (objects q0 r)
                  else objects q0 r) \<rparr>" for xs q0
    using fold_update_task [of "\<lambda>t. t\<lparr> status := FAILED, error := Some CancelledByUser \<rparr>" snd xs q0]
    by (simp add: case_prod_unfold)
  show "objects (clear_pending_tasks q) = cleared q"
    unfolding clear_pending_tasks_def Let_def a b
    by (auto simp: fun_eq_iff cleared_def option.map_comp comp_def)
  show "pending_queue (clear_pending_tasks q) = []"
    unfolding clear_pending_tasks_def Let_def a b by simp
  show "completed_tasks (clear_pending_tasks q) = []"
    unfolding clear_pending_tasks_def Let_def a b by simp
  show "active_tasks (clear_pending_tasks q) = active_tasks q"
    unfolding clear_pending_tasks_def Let_def a b by simp
  show "workers (clear_pending_tasks q) = workers q"
    unfolding clear_pending_tasks_def Let_def a b by simp
  show "next_ref (clear_pending_tasks q) = next_ref q"
    unfolding clear_pending_tasks_def Let_def a b by simp
  show "max_concurrent (clear_pending_tasks q) = max_concurrent q"
    unfolding clear_pending_tasks_def Let_def a b by simp
qed

lemma add_task_fields:
  "fst (add_task now ct new_id src lang hw style timeout q) = new_id"
  "next_ref (snd (add_task now ct new_id src lang hw style timeout q)) = Suc (next_ref q)"
  "workers (snd (add_task now ct new_id src lang hw style timeout q)) = workers q"
  "active_tasks (snd (add_task now ct new_id src lang hw style timeout q)) = active_tasks q"
  "max_concurrent (snd (add_task now ct new_id src lang hw style timeout q)) = max_concurrent q"
  "pending_queue (snd (add_task now ct new_id src lang hw style timeout q)) =
     (if int (length (pending_queue q)) \<ge> max_concurrent q then tl (pending_queue q) else pending_queue q)
     @ [next_ref q]"
  by (simp_all add: add_task_def Let_def cleanup_old_tasks_def split: list.splits)

lemma add_task_objects:
  "objects (snd (add_task now ct new_id src lang hw style timeout q)) r =
     (if r = next_ref q then
        (if int (length (pending_queue q)) \<ge> max_concurrent q \<and> pending_queue q \<noteq> [] \<and>
            hd (pending_queue q) = next_ref q
         then Some ((new_task now new_id src lang hw style timeout q)\<lparr> status := FAILED, error := Some QueueOverflow \<rparr>)
         else Some (new_task now new_id src lang hw style timeout q))
      else if int (length (pending_queue q)) \<ge> max_concurrent q \<and> pending_queue q \<noteq> [] \<and>
              r = hd (pending_queue q)
      then map_option (\<lambda>t. t\<lparr> status := FAILED, error := Some QueueOverflow \<rparr>) (objects q r)
      else objects q r)"
  by (simp add: add_task_def Let_def cleanup_old_tasks_def new_task_def split: list.splits)

lemma process_settle_eq: "process_settle oc now r q = update_task r (settled oc now) q"
  by (cases oc) (simp_all add: process_settle_def settled_def [abs_def])

lemma settled_simps [simp]:
  "task_id (settled oc now t) = task_id t"
  "created_at (settled oc now t) = created_at t"
  "started_at (settled oc now t) = started_at t"
  "terminal (status (settled oc now t))"
  "status (settled (Failed e) now t) = FAILED"
  by (cases oc; simp add: settled_def terminal_def)+

lemma process_finally_fields:
  "objects (process_finally r q) = objects q"
  "next_ref (process_finally r q) = next_ref q"
  "pending_queue (process_finally r q) = pending_queue q"
  "workers (process_finally r q) = workers q"
  "max_concurrent (process_finally r q) = max_concurrent q"
  "active_tasks (process_finally r q) =
     (case objects q r of None \<Rightarrow> active_tasks q | Some t \<Rightarrow> dict_del (task_id t) (active_tasks q))"
  by (simp_all add: process_finally_def split: option.splits)

lemma worker_poll_cases:
  assumes "\<forall>r \<in> set (pending_queue q). status_of q r = Some PENDING"
  obtains
    (idle) "worker_poll w nc ns q = q"
  | (stale) r rest task where "pending_queue q = r # rest" "objects q r = Some task"
      "status task = PENDING"
      "worker_poll w nc ns q =
         update_task r (\<lambda>t. t\<lparr> status := TIMEOUT, error := Some TimeoutBeforeProcessing \<rparr>)
           (q\<lparr> pending_queue := rest \<rparr>)"
  | (start) r rest task where "pending_queue q = r # rest" "objects q r = Some task"
      "status task = PENDING" "w < length (workers q)" "workers q ! w = Polling"
      "worker_poll w nc ns q =
         (update_task r (\<lambda>t. t\<lparr> status := PROCESSING, started_at := Some ns \<rparr>)
            (q\<lparr> pending_queue := rest \<rparr>))
           \<lparr> active_tasks := dict_set (task_id task) r (active_tasks q),
             workers := (workers q)[w := Running r] \<rparr>"
proof (cases "w < length (workers q) \<and> workers q ! w = Polling \<and> is_running q")
  case False
  then have "worker_poll w nc ns q = q" by (auto simp: worker_poll_def)
  then show ?thesis by (rule idle)
next
  case guard: True
  show ?thesis
  proof (cases "pending_queue q")
    case Nil
    with guard have "worker_poll w nc ns q = q" by (simp add: worker_poll_def)
    then show ?thesis by (rule idle)
  next
    case (Cons r rest)
    with assms obtain task where task: "objects q r = Some task" and st: "status task = PENDING"
      by (auto simp: status_of_def)
    show ?thesis
    proof (cases "nc - created_at task > timeout_seconds task")
      case True
      with guard Cons task have "worker_poll w nc ns q =
         update_task r (\<lambda>t. t\<lparr> status := TIMEOUT, error := Some TimeoutBeforeProcessing \<rparr>)
           (q\<lparr> pending_queue := rest \<rparr>)"
        by (simp add: worker_poll_def)
      with Cons task st show ?thesis by (rule stale)
    next
      case False
      with guard Cons task have "worker_poll w nc ns q =
         (update_task r (\<lambda>t. t\<lparr> status := PROCESSING, started_at := Some ns \<rparr>)
            (q\<lparr> pending_queue := rest \<rparr>))
           \<lparr> active_tasks := dict_set (task_id task) r (active_tasks q),
             workers := (workers q)[w := Running r] \<rparr>"
        by (simp add: worker_poll_def process_begin_def)
      with Cons task st guard show ?thesis by (intro start) simp_all
    qed
  qed
qed

lemma worker_settle_cases:
  obtains
    (idle) "worker_settle fromhex b64 w env now q = q"
  | (notify) r task e where "w < length (workers q)" "workers q ! w = Running r"
      "objects q r = Some task" "error_callback q"
      "worker_settle fromhex b64 w env now q =
         (update_task r (settled (Failed e) now) q)\<lparr> workers := (workers q)[w := Notifying r] \<rparr>"
  | (finished) r task oc where "w < length (workers q)" "workers q ! w = Running r"
      "objects q r = Some task"
      "worker_settle fromhex b64 w env now q =
         (process_finally r (update_task r (settled oc now) q))\<lparr> workers := (workers q)[w := Polling] \<rparr>"
proof (cases "w < length (workers q)")
  case False
  then have "worker_settle fromhex b64 w env now q = q" by (simp add: worker_settle_def)
  then show ?thesis by (rule idle)
next
  case len: True
  show ?thesis
  proof (cases "workers q ! w")
    case Polling
    with len have "worker_settle fromhex b64 w env now q = q" by (simp add: worker_settle_def)
    then show ?thesis by (rule idle)
  next
    case (Notifying r)
    with len have "worker_settle fromhex b64 w env now q = q" by (simp add: worker_settle_def)
    then show ?thesis by (rule idle)
  next
    case (Running r)
    show ?thesis
    proof (cases "objects q r")
      case None
      with len Running have "worker_settle fromhex b64 w env now q = q"
        by (simp add: worker_settle_def)
      then show ?thesis by (rule idle)
    next
      case (Some task)
      show ?thesis
      proof (cases "fst (run_pipeline fromhex b64 q task env)")
        case None
        with len Running Some have "worker_settle fromhex b64 w env now q = q"
          by (simp add: worker_settle_def)
        then show ?thesis by (rule idle)
      next
        case oc: (Some oc)
        show ?thesis
        proof (cases "(\<exists>e. oc = Failed e) \<and> error_callback q")
          case True
          then obtain e where e: "oc = Failed e" and ec: "error_callback q" by auto
          with len Running Some oc have "worker_settle fromhex b64 w env now q =
             (update_task r (settled (Failed e) now) q)\<lparr> workers := (workers q)[w := Notifying r] \<rparr>"
            by (simp add: worker_settle_def process_settle_eq)
          with len Running Some ec show ?thesis by (intro notify)
        next
          case False
          with len Running Some oc have "worker_settle fromhex b64 w env now q =
             (process_finally r (update_task r (settled oc now) q))\<lparr> workers := (workers q)[w := Polling] \<rparr>"
            by (cases oc) (simp_all add: worker_settle_def process_settle_eq)
          with len Running Some show ?thesis by (intro finished)
        qed
      qed
    qed
  qed
qed

lemma worker_finish_cases:
  obtains
    (idle) "worker_finish w q = q"
  | (finished) r where "w < length (workers q)" "workers q ! w = Notifying r"
      "worker_finish w q = (process_finally r q)\<lparr> workers := (workers q)[w := Polling] \<rparr>"
  by (cases "w < length (workers q)"; cases "workers q ! w") (auto simp: worker_finish_def)

lemma in_set_tlD: "x \<in> set (tl xs) \<Longrightarrow> x \<in> set xs"
  by (cases xs) auto

lemma holds_cases:
  "holds q w r = (w < length (workers q) \<and> (workers q ! w = Running r \<or> workers q ! w = Notifying r))"
  by (cases "workers q ! w") (auto simp: holds_def)

lemma in_flight_holds: "in_flight q r = (\<exists>w. holds q w r)"
proof
  assume "in_flight q r"
  then obtain x where "x \<in> set (workers q)" and "worker_ref x = Some r"
    by (auto simp: in_flight_def image_iff)
  then obtain w where "w < length (workers q)" and "workers q ! w = x"
    by (auto simp: in_set_conv_nth)
  with \<open>worker_ref x = Some r\<close> show "\<exists>w. holds q w r" by (auto simp: holds_def)
next
  assume "\<exists>w. holds q w r"
  then obtain w where "w < length (workers q)" and "worker_ref (workers q ! w) = Some r"
    by (auto simp: holds_def)
  then have "Some r \<in> worker_ref ` set (workers q)"
    by (metis image_eqI nth_mem)
  then show "in_flight q r" by (simp add: in_flight_def)
qed

lemma queue_inv_alt:
  "queue_inv q =
     ((\<forall>r. next_ref q \<le> r \<longrightarrow> objects q r = None) \<and>
      distinct (pending_queue q) \<and>
      (\<forall>r \<in> set (pending_queue q). status_of q r = Some PENDING) \<and>
      (\<forall>w r. holds q w r \<longrightarrow> status_of q r = Some PROCESSING \<or> status_of q r = Some FAILED) \<and>
      (\<forall>w r. w < length (workers q) \<and> workers q ! w = Notifying r \<longrightarrow> status_of q r = Some FAILED) \<and>
      (\<forall>w w' r. holds q w r \<and> holds q w' r \<longrightarrow> w = w') \<and>
      (\<forall>k r. (k, r) \<in> set (active_tasks q) \<longrightarrow>
          (\<exists>w. holds q w r) \<and> map_option task_id (objects q r) = Some k))"
  (is "_ = (?A1 \<and> ?A2 \<and> ?A3 \<and> ?A4 \<and> ?A5 \<and> ?A6 \<and> ?A7)")
proof -
  have 4: "((\<forall>w < length (workers q). \<forall>r. workers q ! w = Running r \<longrightarrow>
          status_of q r = Some PROCESSING \<or> status_of q r = Some FAILED) \<and>
      (\<forall>w < length (workers q). \<forall>r. workers q ! w = Notifying r \<longrightarrow>
          status_of q r = Some FAILED)) = (?A4 \<and> ?A5)"
    unfolding holds_cases by auto
  have 6: "(\<forall>w < length (workers q). \<forall>w' < length (workers q).
          w \<noteq> w' \<longrightarrow> worker_ref (workers q ! w) \<noteq> None \<longrightarrow>
          worker_ref (workers q ! w) \<noteq> worker_ref (workers q ! w')) = ?A6"
    unfolding holds_def by (auto; metis)
  have 7: "(\<forall>(k, r) \<in> set (active_tasks q).
          in_flight q r \<and> map_option task_id (objects q r) = Some k) = ?A7"
    unfolding in_flight_holds by auto
  show ?thesis
    unfolding queue_inv_def 6 7 using 4 by auto
qed

lemma holds_pending:
  assumes "queue_inv q" and "holds q w r"
  shows "r \<notin> set (pending_queue q)" and "r < next_ref q" and "objects q r \<noteq> None"
proof -
  from assms have s: "status_of q r = Some PROCESSING \<or> status_of q r = Some FAILED"
    and p: "\<forall>r \<in> set (pending_queue q). status_of q r = Some PENDING"
    and n: "\<forall>r. next_ref q \<le> r \<longrightarrow> objects q r = None"
    unfolding queue_inv_alt by auto
  from s p show "r \<notin> set (pending_queue q)" by auto
  from s show "objects q r \<noteq> None" by (auto simp: status_of_def)
  with n show "r < next_ref q" by (meson not_le)
qed

lemma pending_allocated:
  assumes "queue_inv q" and "r \<in> set (pending_queue q)"
  shows "r < next_ref q"
proof -
  from assms have "status_of q r = Some PENDING" unfolding queue_inv_alt by auto
  then have "objects q r \<noteq> None" by (auto simp: status_of_def)
  with assms(1) show ?thesis unfolding queue_inv_alt by (meson not_le)
qed

lemma queue_inv_new: "queue_inv (new_queue mc dt)"
  by (simp add: queue_inv_def new_queue_def in_flight_def)

lemma queue_inv_set_callbacks: "queue_inv q \<Longrightarrow> queue_inv (set_callbacks tc acc ec q)"
  by (simp add: queue_inv_def set_callbacks_def in_flight_def status_of_def)

lemma queue_inv_start_workers:
  assumes "queue_inv q" shows "queue_inv (start_workers q)"
proof (cases "is_running q")
  case True
  with assms show ?thesis by (simp add: start_workers_def)
next
  case False
  let ?q = "q\<lparr> is_running := True, workers := workers q @ replicate (nat (max_concurrent q)) Polling \<rparr>"
  have h: "holds ?q w r = holds q w r" for w r
    by (auto simp: holds_def nth_append)
  have n: "w < length (workers ?q) \<and> workers ?q ! w = Notifying r \<longleftrightarrow>
           w < length (workers q) \<and> workers q ! w = Notifying r" for w r
    by (auto simp: nth_append)
  have "queue_inv ?q"
    using assms unfolding queue_inv_alt h n by (simp add: status_of_def)
  with False show ?thesis by (simp add: start_workers_def)
qed

lemma queue_invI:
  assumes "\<And>r. next_ref q \<le> r \<Longrightarrow> objects q r = None"
    and "distinct (pending_queue q)"
    and "\<And>r. r \<in> set (pending_queue q) \<Longrightarrow> status_of q r = Some PENDING"
    and "\<And>w r. holds q w r \<Longrightarrow> status_of q r = Some PROCESSING \<or> status_of q r = Some FAILED"
    and "\<And>w r. w < length (workers q) \<Longrightarrow> workers q ! w = Notifying r \<Longrightarrow> status_of q r = Some FAILED"
    and "\<And>w w' r. holds q w r \<Longrightarrow> holds q w' r \<Longrightarrow> w = w'"
    and "\<And>k r. (k, r) \<in> set (active_tasks q) \<Longrightarrow> \<exists>w. holds q w r"
    and "\<And>k r. (k, r) \<in> set (active_tasks q) \<Longrightarrow> map_option task_id (objects q r) = Some k"
  shows "queue_inv q"
  unfolding queue_inv_alt using assms by auto

lemma queue_invD:
  assumes "queue_inv q"
  shows "next_ref q \<le> r \<Longrightarrow> objects q r = None"
    and "distinct (pending_queue q)"
    and "r \<in> set (pending_queue q) \<Longrightarrow> status_of q r = Some PENDING"
    and "holds q w r \<Longrightarrow> status_of q r = Some PROCESSING \<or> status_of q r = Some FAILED"
    and "w < length (workers q) \<Longrightarrow> workers q ! w = Notifying r \<Longrightarrow> status_of q r = Some FAILED"
    and "holds q w r \<Longrightarrow> holds q w' r \<Longrightarrow> w = w'"
    and "(k, r) \<in> set (active_tasks q) \<Longrightarrow> \<exists>w. holds q w r"
    and "(k, r) \<in> set (active_tasks q) \<Longrightarrow> map_option task_id (objects q r) = Some k"
proof -
  from assms have a6: "\<forall>w w' r. holds q w r \<and> holds q w' r \<longrightarrow> w = w'"
    unfolding queue_inv_alt by (elim conjE)
  from assms have a7: "\<forall>k r. (k, r) \<in> set (active_tasks q) \<longrightarrow>
          (\<exists>w. holds q w r) \<and> map_option task_id (objects q r) = Some k"
    unfolding queue_inv_alt by (elim conjE)
  show "next_ref q \<le> r \<Longrightarrow> objects q r = None"
    and "distinct (pending_queue q)"
    and "r \<in> set (pending_queue q) \<Longrightarrow> status_of q r = Some PENDING"
    and "holds q w r \<Longrightarrow> status_of q r = Some PROCESSING \<or> status_of q r = Some FAILED"
    and "w < length (workers q) \<Longrightarrow> workers q ! w = Notifying r \<Longrightarrow> status_of q r = Some FAILED"
    using assms unfolding queue_inv_alt by simp_all
  show "holds q w r \<Longrightarrow> holds q w' r \<Longrightarrow> w = w'"
    using a6 by blast
  show "(k, r) \<in> set (active_tasks q) \<Longrightarrow> \<exists>w. holds q w r"
    and "(k, r) \<in> set (active_tasks q) \<Longrightarrow> map_option task_id (objects q r) = Some k"
    using a7 by blast+
qed

lemma add_task_untouched:
  assumes "queue_inv q" and "r < next_ref q" and "r \<notin> set (pending_queue q)"
  shows "objects (snd (add_task now ct new_id src lang hw style timeout q)) r = objects q r"
  using assms by (auto simp: add_task_objects)

lemma queue_inv_add_task:
  assumes inv: "queue_inv q"
  shows "queue_inv (snd (add_task now ct new_id src lang hw style timeout q))"
    (is "queue_inv ?q'")
proof (rule queue_invI)
  note f = add_task_fields [of now ct new_id src lang hw style timeout q]
  have fresh: "next_ref q \<notin> set (pending_queue q)"
    using pending_allocated [OF inv, of "next_ref q"] by auto
  have h: "holds ?q' w r = holds q w r" for w r
    by (simp add: holds_def f)
  have held: "objects ?q' r = objects q r" if "holds q w r" for w r
    using holds_pending [OF inv that] by (intro add_task_untouched [OF inv])
  { fix r assume "next_ref ?q' \<le> r"
    then have "next_ref q < r" by (simp add: f)
    then show "objects ?q' r = None"
      using queue_invD(1) [OF inv, of r] by (auto simp: add_task_objects) }
  show "distinct (pending_queue ?q')"
    using queue_invD(2) [OF inv] fresh
    by (auto simp: f distinct_tl dest: in_set_tlD)
  { fix r assume r: "r \<in> set (pending_queue ?q')"
    show "status_of ?q' r = Some PENDING"
    proof (cases "r = next_ref q")
      case True
      have "pending_queue q \<noteq> [] \<Longrightarrow> hd (pending_queue q) \<noteq> next_ref q"
        using fresh by (cases "pending_queue q") auto
      with True show ?thesis
        by (auto simp: status_of_def add_task_objects new_task_def)
    next
      case False
      show ?thesis
      proof (cases "int (length (pending_queue q)) \<ge> max_concurrent q")
        case True
        with r False have t: "r \<in> set (tl (pending_queue q))" by (simp add: f)
        then have ne: "pending_queue q \<noteq> []" by auto
        with t queue_invD(2) [OF inv] have "r \<noteq> hd (pending_queue q)"
          by (cases "pending_queue q") auto
        moreover from t have "r \<in> set (pending_queue q)" by (rule in_set_tlD)
        ultimately show ?thesis
          using False queue_invD(3) [OF inv, of r]
          by (simp add: status_of_def add_task_objects)
      next
        case nf: False
        with r False have "r \<in> set (pending_queue q)" by (simp add: f)
        with nf False queue_invD(3) [OF inv, of r] show ?thesis
          by (simp add: status_of_def add_task_objects)
      qed
    qed }
  { fix w r assume "holds ?q' w r"
    then have hq: "holds q w r" by (simp add: h)
    from held [OF hq] queue_invD(4) [OF inv hq]
    show "status_of ?q' r = Some PROCESSING \<or> status_of ?q' r = Some FAILED"
      by (simp add: status_of_def) }
  { fix w r assume "w < length (workers ?q')" and "workers ?q' ! w = Notifying r"
    then have w: "w < length (workers q)" and n: "workers q ! w = Notifying r"
      by (simp_all add: f)
    then have hq: "holds q w r" by (simp add: holds_def)
    from held [OF hq] queue_invD(5) [OF inv w n]
    show "status_of ?q' r = Some FAILED" by (simp add: status_of_def) }
  { fix w w' r assume "holds ?q' w r" and "holds ?q' w' r"
    then show "w = w'" using queue_invD(6) [OF inv, of w r w'] by (simp add: h) }
  { fix k r assume "(k, r) \<in> set (active_tasks ?q')"
    then have a: "(k, r) \<in> set (active_tasks q)" by (simp add: f)
    from queue_invD(7) [OF inv a] show "\<exists>w. holds ?q' w r" by (simp add: h)
    from queue_invD(7) [OF inv a] obtain w where "holds q w r" by auto
    from held [OF this] queue_invD(8) [OF inv a]
    show "map_option task_id (objects ?q' r) = Some k" by simp }
qed

lemma dict_set_mem:
  "(k', v') \<in> set (dict_set k v d) \<Longrightarrow> (k', v') = (k, v) \<or> (k', v') \<in> set d"
  by (auto simp: dict_set_def split: if_splits)

lemma dict_del_mem:
  "(k', v') \<in> set (dict_del k d) = ((k', v') \<in> set d \<and> k' \<noteq> k)"
  by (auto simp: dict_del_def)

lemma holds_same_workers: "workers q' = workers q \<Longrightarrow> holds q' w r = holds q w r"
  by (simp add: holds_def)

lemma holds_list_update:
  "workers q' = (workers q)[w := s] \<Longrightarrow> w < length (workers q) \<Longrightarrow>
     holds q' w' r = (if w' = w then worker_ref s = Some r else holds q w' r)"
  by (auto simp: holds_def)

lemma queue_inv_worker_poll:
  assumes inv: "queue_inv q"
  shows "queue_inv (worker_poll w nc ns q)"
proof -
  have pend: "\<forall>r \<in> set (pending_queue q). status_of q r = Some PENDING"
    using queue_invD(3) [OF inv] by auto
  show ?thesis
  proof (rule worker_poll_cases [OF pend, of w nc ns])
    assume "worker_poll w nc ns q = q"
    with inv show ?thesis by simp
  next
    fix r rest and task :: translation_task
    let ?q' = "update_task r (\<lambda>t. t\<lparr> status := TIMEOUT, error := Some TimeoutBeforeProcessing \<rparr>)
                 (q\<lparr> pending_queue := rest \<rparr>)"
    assume stale: "pending_queue q = r # rest" "objects q r = Some task" "status task = PENDING"
      "worker_poll w nc ns q = ?q'"
    have h: "holds ?q' w' x = holds q w' x" for w' x
      by (rule holds_same_workers) simp
    have rp: "r \<in> set (pending_queue q)" and nr: "r \<notin> set rest" and dr: "distinct rest"
      using stale(1) queue_invD(2) [OF inv] by auto
    have held: "x \<noteq> r" if "holds q w' x" for w' x
      using holds_pending(1) [OF inv that] rp by auto
    have "queue_inv ?q'"
    proof (rule queue_invI)
      fix x assume "next_ref ?q' \<le> x"
      then show "objects ?q' x = None" using queue_invD(1) [OF inv, of x] by auto
    next
      show "distinct (pending_queue ?q')" using dr by simp
    next
      fix x assume "x \<in> set (pending_queue ?q')"
      then have "x \<in> set rest" by simp
      with nr stale(1) queue_invD(3) [OF inv, of x] show "status_of ?q' x = Some PENDING"
        by (auto simp: status_of_def)
    next
      fix w' x assume "holds ?q' w' x"
      then have hq: "holds q w' x" by (simp add: h)
      with held [OF hq] queue_invD(4) [OF inv hq]
      show "status_of ?q' x = Some PROCESSING \<or> status_of ?q' x = Some FAILED"
        by (simp add: status_of_def)
    next
      fix w' x assume a: "w' < length (workers ?q')" "workers ?q' ! w' = Notifying x"
      then have hq: "holds q w' x" by (simp add: holds_def)
      with a held [OF hq] queue_invD(5) [OF inv, of w' x]
      show "status_of ?q' x = Some FAILED" by (simp add: status_of_def)
    next
      fix w1 w2 x assume "holds ?q' w1 x" and "holds ?q' w2 x"
      then show "w1 = w2" using queue_invD(6) [OF inv, of w1 x w2] by (simp add: h)
    next
      fix k x assume "(k, x) \<in> set (active_tasks ?q')"
      then have a: "(k, x) \<in> set (active_tasks q)" by simp
      from queue_invD(7) [OF inv a] show "\<exists>w. holds ?q' w x" by (simp add: h)
    next
      fix k x assume "(k, x) \<in> set (active_tasks ?q')"
      then have a: "(k, x) \<in> set (active_tasks q)" by simp
      from queue_invD(7) [OF inv a] obtain w' where "holds q w' x" by auto
      from held [OF this] queue_invD(8) [OF inv a]
      show "map_option task_id (objects ?q' x) = Some k" by simp
    qed
    with stale(4) show ?thesis by simp
  next
    fix r rest and task :: translation_task
    let ?q' = "(update_task r (\<lambda>t. t\<lparr> status := PROCESSING, started_at := Some ns \<rparr>)
            (q\<lparr> pending_queue := rest \<rparr>))
           \<lparr> active_tasks := dict_set (task_id task) r (active_tasks q),
             workers := (workers q)[w := Running r] \<rparr>"
    assume start: "pending_queue q = r # rest" "objects q r = Some task" "status task = PENDING"
      "w < length (workers q)" "workers q ! w = Polling" "worker_poll w nc ns q = ?q'"
    have free: "\<not> holds q w x" for x
      using start(5) by (simp add: holds_def)
    have h: "holds ?q' w' x = ((w' = w \<and> x = r) \<or> holds q w' x)" for w' x
      using holds_list_update [of ?q' q w "Running r" w' x] start(4) free
      by auto
    have rp: "r \<in> set (pending_queue q)" and nr: "r \<notin> set rest" and dr: "distinct rest"
      using start(1) queue_invD(2) [OF inv] by auto
    have held: "x \<noteq> r" if "holds q w' x" for w' x
      using holds_pending(1) [OF inv that] rp by auto
    have "queue_inv ?q'"
    proof (rule queue_invI)
      fix x assume "next_ref ?q' \<le> x"
      then show "objects ?q' x = None" using queue_invD(1) [OF inv, of x] by auto
    next
      show "distinct (pending_queue ?q')" using dr by simp
    next
      fix x assume "x \<in> set (pending_queue ?q')"
      then have "x \<in> set rest" by simp
      with nr start(1) queue_invD(3) [OF inv, of x] show "status_of ?q' x = Some PENDING"
        by (auto simp: status_of_def)
    next
      fix w' x assume "holds ?q' w' x"
      then consider "x = r" | "holds q w' x" by (auto simp: h)
      then show "status_of ?q' x = Some PROCESSING \<or> status_of ?q' x = Some FAILED"
      proof cases
        case 1
        with start(2) show ?thesis by (simp add: status_of_def)
      next
        case 2
        with held [OF 2] queue_invD(4) [OF inv 2] show ?thesis by (simp add: status_of_def)
      qed
    next
      fix w' x assume a: "w' < length (workers ?q')" "workers ?q' ! w' = Notifying x"
      then have ne: "w' \<noteq> w" using start(4) by auto
      with a have b: "w' < length (workers q)" "workers q ! w' = Notifying x" by simp_all
      then have hq: "holds q w' x" by (simp add: holds_def)
      with held [OF hq] queue_invD(5) [OF inv b]
      show "status_of ?q' x = Some FAILED" by (simp add: status_of_def)
    next
      fix w1 w2 x assume a: "holds ?q' w1 x" "holds ?q' w2 x"
      show "w1 = w2"
      proof (cases "x = r")
        case True
        with a held show ?thesis by (auto simp: h)
      next
        case False
        with a queue_invD(6) [OF inv, of w1 x w2] show ?thesis by (simp add: h)
      qed
    next
      fix k x assume "(k, x) \<in> set (active_tasks ?q')"
      then have "(k, x) = (task_id task, r) \<or> (k, x) \<in> set (active_tasks q)"
        using dict_set_mem [of k x "task_id task" r "active_tasks q"] by simp
      then show "\<exists>w. holds ?q' w x"
        using queue_invD(7) [OF inv, of k x] by (auto simp: h)
    next
      fix k x assume "(k, x) \<in> set (active_tasks ?q')"
      then have "(k, x) = (task_id task, r) \<or> (k, x) \<in> set (active_tasks q)"
        using dict_set_mem [of k x "task_id task" r "active_tasks q"] by simp
      then show "map_option task_id (objects ?q' x) = Some k"
      proof
        assume "(k, x) = (task_id task, r)"
        with start(2) show ?thesis by simp
      next
        assume a: "(k, x) \<in> set (active_tasks q)"
        from queue_invD(7) [OF inv a] obtain w' where "holds q w' x" by auto
        from held [OF this] queue_invD(8) [OF inv a] show ?thesis by simp
      qed
    qed
    with start(6) show ?thesis by simp
  qed
qed

lemma queue_inv_release:
  assumes inv: "queue_inv q" and w: "w < length (workers q)"
    and hr: "worker_ref (workers q ! w) = Some r"
    and obj: "objects q r = Some task"
    and tid: "task_id (f task) = task_id task"
  shows "queue_inv ((process_finally r (update_task r f q))\<lparr> workers := (workers q)[w := Polling] \<rparr>)"
    (is "queue_inv ?q'")
proof -
  have hw: "holds q w r" using w hr by (simp add: holds_def)
  have h: "holds ?q' w' x = (w' \<noteq> w \<and> holds q w' x)" for w' x
    using holds_list_update [of ?q' q w Polling w' x] w
    by (auto simp: process_finally_fields holds_def)
  have act: "active_tasks ?q' = dict_del (task_id task) (active_tasks q)"
    using obj tid by (simp add: process_finally_fields)
  have o: "objects ?q' = (objects q)(r \<mapsto> f task)"
    using obj by (simp add: process_finally_fields)
  have rn: "r < next_ref q" and rp: "r \<notin> set (pending_queue q)"
    using holds_pending [OF inv hw] by auto
  have other: "x \<noteq> r" if "holds q w' x" and "w' \<noteq> w" for w' x
    using that hw queue_invD(6) [OF inv, of w' x w] by auto
  have active_other: "x \<noteq> r \<and> (\<exists>w'. w' \<noteq> w \<and> holds q w' x)"
    if "(k, x) \<in> set (active_tasks ?q')" for k x
  proof -
    from that have a: "(k, x) \<in> set (active_tasks q)" and k: "k \<noteq> task_id task"
      by (simp_all add: act dict_del_mem)
    from queue_invD(8) [OF inv a] k obj have ne: "x \<noteq> r" by auto
    from queue_invD(7) [OF inv a] obtain w' where w': "holds q w' x" by auto
    with hw ne have "w' \<noteq> w" by (auto simp: holds_def)
    with ne w' show ?thesis by auto
  qed
  show ?thesis
  proof (rule queue_invI)
    fix x assume "next_ref ?q' \<le> x"
    then show "objects ?q' x = None"
      using queue_invD(1) [OF inv, of x] rn unfolding o by (simp add: process_finally_fields)
  next
    show "distinct (pending_queue ?q')"
      using queue_invD(2) [OF inv] by (simp add: process_finally_fields)
  next
    fix x assume "x \<in> set (pending_queue ?q')"
    then have "x \<in> set (pending_queue q)" by (simp add: process_finally_fields)
    with queue_invD(3) [OF inv, of x] rp show "status_of ?q' x = Some PENDING"
      unfolding status_of_def o by auto
  next
    fix w' x assume "holds ?q' w' x"
    then have hq: "holds q w' x" and ne: "w' \<noteq> w" by (simp_all add: h)
    from queue_invD(4) [OF inv hq] other [OF hq ne]
    show "status_of ?q' x = Some PROCESSING \<or> status_of ?q' x = Some FAILED"
      unfolding status_of_def o by simp
  next
    fix w' x assume a: "w' < length (workers ?q')" "workers ?q' ! w' = Notifying x"
    then have ne: "w' \<noteq> w" using w by (auto simp: process_finally_fields)
    with a have b: "w' < length (workers q)" "workers q ! w' = Notifying x"
      by (simp_all add: process_finally_fields)
    then have "holds q w' x" by (simp add: holds_def)
    from queue_invD(5) [OF inv b] other [OF this ne]
    show "status_of ?q' x = Some FAILED" unfolding status_of_def o by simp
  next
    fix w1 w2 x assume "holds ?q' w1 x" and "holds ?q' w2 x"
    then show "w1 = w2" using queue_invD(6) [OF inv, of w1 x w2] by (simp add: h)
  next
    fix k x assume "(k, x) \<in> set (active_tasks ?q')"
    from active_other [OF this] show "\<exists>w. holds ?q' w x" by (auto simp: h)
  next
    fix k x assume a: "(k, x) \<in> set (active_tasks ?q')"
    then have b: "(k, x) \<in> set (active_tasks q)" by (simp add: act dict_del_mem)
    from queue_invD(8) [OF inv b] active_other [OF a]
    show "map_option task_id (objects ?q' x) = Some k" unfolding o by simp
  qed
qed

lemma update_task_id: "objects q r = Some task \<Longrightarrow> update_task r (\<lambda>t. t) q = q"
  by (simp add: update_task_def fun_upd_idem)

lemma queue_inv_settled:
  assumes inv: "queue_inv q" and w: "w < length (workers q)"
    and run: "workers q ! w = Running r"
    and s: "workers q' = (workers q)[w := s]" and sr: "worker_ref s = Some r"
    and sn: "\<And>x. s = Notifying x \<Longrightarrow> status (f task) = FAILED"
    and sf: "status (f task) = PROCESSING \<or> status (f task) = FAILED"
    and obj: "objects q r = Some task"
    and tid: "task_id (f task) = task_id task"
    and o: "objects q' = (objects q)(r \<mapsto> f task)"
    and rest: "next_ref q' = next_ref q" "pending_queue q' = pending_queue q"
      "active_tasks q' = active_tasks q"
  shows "queue_inv q'"
proof -
  have hw: "holds q w r" using w run by (simp add: holds_def)
  have h: "holds q' w' x = holds q w' x" for w' x
    using holds_list_update [OF s w, of w' x] sr hw w run
    by (auto simp: holds_def)
  have rn: "r < next_ref q" and rp: "r \<notin> set (pending_queue q)"
    using holds_pending [OF inv hw] by auto
  show ?thesis
  proof (rule queue_invI)
    fix x assume "next_ref q' \<le> x"
    then show "objects q' x = None"
      using queue_invD(1) [OF inv, of x] rn by (simp add: o rest)
  next
    show "distinct (pending_queue q')" using queue_invD(2) [OF inv] by (simp add: rest)
  next
    fix x assume "x \<in> set (pending_queue q')"
    then show "status_of q' x = Some PENDING"
      using queue_invD(3) [OF inv, of x] rp by (auto simp: rest o status_of_def)
  next
    fix w' x assume "holds q' w' x"
    then have hq: "holds q w' x" by (simp add: h)
    from queue_invD(4) [OF inv hq] sf
    show "status_of q' x = Some PROCESSING \<or> status_of q' x = Some FAILED"
      by (auto simp: o status_of_def)
  next
    fix w' x assume a: "w' < length (workers q')" "workers q' ! w' = Notifying x"
    show "status_of q' x = Some FAILED"
    proof (cases "w' = w")
      case True
      with a s w have "s = Notifying x" by simp
      with sn sr show ?thesis by (auto simp: o status_of_def)
    next
      case False
      with a s have b: "w' < length (workers q)" "workers q ! w' = Notifying x" by simp_all
      then have "holds q w' x" by (simp add: holds_def)
      with hw False queue_invD(6) [OF inv, of w' x w] have "x \<noteq> r" by auto
      with queue_invD(5) [OF inv b] show ?thesis by (simp add: o status_of_def)
    qed
  next
    fix w1 w2 x assume "holds q' w1 x" and "holds q' w2 x"
    then show "w1 = w2" using queue_invD(6) [OF inv, of w1 x w2] by (simp add: h)
  next
    fix k x assume "(k, x) \<in> set (active_tasks q')"
    then have a: "(k, x) \<in> set (active_tasks q)" by (simp add: rest)
    from queue_invD(7) [OF inv a] show "\<exists>w. holds q' w x" by (simp add: h)
  next
    fix k x assume "(k, x) \<in> set (active_tasks q')"
    then have a: "(k, x) \<in> set (active_tasks q)" by (simp add: rest)
    from queue_invD(8) [OF inv a] obj tid
    show "map_option task_id (objects q' x) = Some k" by (auto simp: o)
  qed
qed

lemma queue_inv_worker_settle:
  assumes inv: "queue_inv q"
  shows "queue_inv (worker_settle fromhex b64 w env now q)"
proof (rule worker_settle_cases [of fromhex b64 w env now q])
  assume "worker_settle fromhex b64 w env now q = q"
  with inv show ?thesis by simp
next
  fix r e and task :: translation_task
  let ?q' = "(update_task r (settled (Failed e) now) q)\<lparr> workers := (workers q)[w := Notifying r] \<rparr>"
  assume a: "w < length (workers q)" "workers q ! w = Running r" "objects q r = Some task"
    "error_callback q" "worker_settle fromhex b64 w env now q = ?q'"
  have "queue_inv ?q'"
    by (rule queue_inv_settled [OF inv a(1) a(2), where s = "Notifying r"
          and f = "settled (Failed e) now" and task = task])
       (use a(3) in simp_all)
  with a(5) show ?thesis by simp
next
  fix r oc and task :: translation_task
  let ?q' = "(process_finally r (update_task r (settled oc now) q))\<lparr> workers := (workers q)[w := Polling] \<rparr>"
  assume a: "w < length (workers q)" "workers q ! w = Running r" "objects q r = Some task"
    "worker_settle fromhex b64 w env now q = ?q'"
  have "queue_inv ?q'"
    by (rule queue_inv_release [OF inv a(1) _ a(3)]) (use a(2) in simp_all)
  with a(4) show ?thesis by simp
qed

lemma queue_inv_worker_finish:
  assumes inv: "queue_inv q"
  shows "queue_inv (worker_finish w q)"
proof (rule worker_finish_cases [of w q])
  assume "worker_finish w q = q"
  with inv show ?thesis by simp
next
  fix r
  assume a: "w < length (workers q)" "workers q ! w = Notifying r"
    "worker_finish w q = (process_finally r q)\<lparr> workers := (workers q)[w := Polling] \<rparr>"
  from queue_invD(5) [OF inv a(1) a(2)] obtain task where t: "objects q r = Some task"
    by (auto simp: status_of_def)
  have "queue_inv ((process_finally r (update_task r (\<lambda>t. t) q))\<lparr> workers := (workers q)[w := Polling] \<rparr>)"
    by (rule queue_inv_release [OF inv a(1) _ t]) (use a(2) in simp_all)
  with a(3) t show ?thesis by (simp add: update_task_id)
qed

lemma queue_inv_clear:
  assumes inv: "queue_inv q"
  shows "queue_inv (clear_pending_tasks q)" (is "queue_inv ?q'")
proof -
  note f = clear_pending_tasks_fields [of q]
  have h: "holds ?q' w x = holds q w x" for w x
    by (rule holds_same_workers) (simp add: f)
  have tid: "map_option task_id (cleared q x) = map_option task_id (objects q x)" for x
    by (cases "objects q x") (simp_all add: cleared_def)
  have st: "status_of ?q' x = Some FAILED \<or> status_of ?q' x = status_of q x"
    if "objects q x \<noteq> None" for x
    using that by (auto simp: status_of_def f cleared_def)
  show ?thesis
  proof (rule queue_invI)
    fix x assume "next_ref ?q' \<le> x"
    then show "objects ?q' x = None"
      using queue_invD(1) [OF inv, of x] by (simp add: f cleared_def)
  next
    show "distinct (pending_queue ?q')" by (simp add: f)
  next
    fix x assume "x \<in> set (pending_queue ?q')"
    then show "status_of ?q' x = Some PENDING" by (simp add: f)
  next
    fix w x assume "holds ?q' w x"
    then have hq: "holds q w x" by (simp add: h)
    from st [OF holds_pending(3) [OF inv hq]] queue_invD(4) [OF inv hq]
    show "status_of ?q' x = Some PROCESSING \<or> status_of ?q' x = Some FAILED" by auto
  next
    fix w x assume a: "w < length (workers ?q')" "workers ?q' ! w = Notifying x"
    then have b: "w < length (workers q)" "workers q ! w = Notifying x" by (simp_all add: f)
    then have hq: "holds q w x" by (simp add: holds_def)
    from st [OF holds_pending(3) [OF inv hq]] queue_invD(5) [OF inv b]
    show "status_of ?q' x = Some FAILED" by auto
  next
    fix w1 w2 x assume "holds ?q' w1 x" and "holds ?q' w2 x"
    then show "w1 = w2" using queue_invD(6) [OF inv, of w1 x w2] by (simp add: h)
  next
    fix k x assume "(k, x) \<in> set (active_tasks ?q')"
    then have a: "(k, x) \<in> set (active_tasks q)" by (simp add: f)
    from queue_invD(7) [OF inv a] show "\<exists>w. holds ?q' w x" by (simp add: h)
  next
    fix k x assume "(k, x) \<in> set (active_tasks ?q')"
    then have a: "(k, x) \<in> set (active_tasks q)" by (simp add: f)
    from queue_invD(8) [OF inv a] show "map_option task_id (objects ?q' x) = Some k"
      by (simp add: f tid)
  qed
qed

lemma queue_inv_apply_action:
  "queue_inv q \<Longrightarrow> queue_inv (apply_action fromhex b64 a q)"
  by (cases a)
     (simp_all add: queue_inv_set_callbacks queue_inv_start_workers queue_inv_add_task
        queue_inv_worker_poll queue_inv_worker_settle queue_inv_worker_finish queue_inv_clear)

lemma queue_inv_run:
  "queue_inv q \<Longrightarrow> queue_inv (run fromhex b64 acts q)"
  by (induction acts arbitrary: q) (simp_all add: queue_inv_apply_action)

subsection \<open>The pending queue stays within its capacity\<close>







text \<open>The definitions a concrete run of the scheduler unfolds.\<close>

lemmas queue_eval = add_task_def Let_def cleanup_old_tasks_def update_task_def new_queue_def
  status_of_def get_queue_stats_def new_task_def set_callbacks_def start_workers_def
  worker_poll_def worker_settle_def worker_finish_def process_begin_def process_settle_def
  process_finally_def dict_set_def dict_del_def clear_pending_tasks_def get_task_status_def
  snapshot_def



subsection \<open>Changes of status\<close>

lemma status_step_add_task:
  assumes inv: "queue_inv q" and s: "status_of q r = Some s"
    and s': "status_of (snd (add_task now ct new_id src lang hw style timeout q)) r = Some s'"
  shows "s' = s \<or> (s = PENDING \<and> s' = FAILED)"
proof -
  have rn: "r \<noteq> next_ref q"
    using s queue_invD(1) [OF inv, of r] by (auto simp: status_of_def)
  show ?thesis
  proof (cases "int (length (pending_queue q)) \<ge> max_concurrent q \<and> pending_queue q \<noteq> [] \<and>
              r = hd (pending_queue q)")
    case True
    then have "r \<in> set (pending_queue q)" by auto
    with queue_invD(3) [OF inv, of r] s have "s = PENDING" by simp
    moreover from True rn s s' have "s' = FAILED"
      by (auto simp: status_of_def add_task_objects)
    ultimately show ?thesis by simp
  next
    case False
    with rn s s' show ?thesis by (auto simp: status_of_def add_task_objects)
  qed
qed

lemma status_step_worker_poll:
  assumes inv: "queue_inv q" and s: "status_of q r = Some s"
    and s': "status_of (worker_poll w nc ns q) r = Some s'"
  shows "s' = s \<or> (s = PENDING \<and> (s' = TIMEOUT \<or> s' = PROCESSING))"
proof -
  have pend: "\<forall>r \<in> set (pending_queue q). status_of q r = Some PENDING"
    using queue_invD(3) [OF inv] by auto
  show ?thesis
  proof (rule worker_poll_cases [OF pend, of w nc ns])
    assume "worker_poll w nc ns q = q"
    with s s' show ?thesis by simp
  next
    fix x rest and task :: translation_task
    assume a: "pending_queue q = x # rest" "objects q x = Some task" "status task = PENDING"
      "worker_poll w nc ns q =
         update_task x (\<lambda>t. t\<lparr> status := TIMEOUT, error := Some TimeoutBeforeProcessing \<rparr>)
           (q\<lparr> pending_queue := rest \<rparr>)"
    with s s' show ?thesis by (cases "r = x") (auto simp: status_of_def)
  next
    fix x rest and task :: translation_task
    assume a: "pending_queue q = x # rest" "objects q x = Some task" "status task = PENDING"
      "w < length (workers q)" "workers q ! w = Polling"
      "worker_poll w nc ns q =
         (update_task x (\<lambda>t. t\<lparr> status := PROCESSING, started_at := Some ns \<rparr>)
            (q\<lparr> pending_queue := rest \<rparr>))
           \<lparr> active_tasks := dict_set (task_id task) x (active_tasks q),
             workers := (workers q)[w := Running x] \<rparr>"
    with s s' show ?thesis by (cases "r = x") (auto simp: status_of_def)
  qed
qed

lemma status_step_worker_settle:
  assumes inv: "queue_inv q" and s: "status_of q r = Some s"
    and s': "status_of (worker_settle fromhex b64 w env now q) r = Some s'"
  shows "s' = s \<or> (s = PROCESSING \<and> terminal s') \<or> cancelled_in_flight q r"
proof (rule worker_settle_cases [of fromhex b64 w env now q])
  assume "worker_settle fromhex b64 w env now q = q"
  with s s' show ?thesis by simp
next
  fix x e and task :: translation_task
  assume a: "w < length (workers q)" "workers q ! w = Running x" "objects q x = Some task"
    "error_callback q"
    "worker_settle fromhex b64 w env now q =
       (update_task x (settled (Failed e) now) q)\<lparr> workers := (workers q)[w := Notifying x] \<rparr>"
  have "holds q w x" using a(1,2) by (simp add: holds_def)
  from queue_invD(4) [OF inv this] a(3)
  have "status task = PROCESSING \<or> status task = FAILED" by (simp add: status_of_def)
  with a s s' show ?thesis
    by (cases "r = x") (auto simp: status_of_def terminal_def)
next
  fix x oc and task :: translation_task
  assume a: "w < length (workers q)" "workers q ! w = Running x" "objects q x = Some task"
    "worker_settle fromhex b64 w env now q =
       (process_finally x (update_task x (settled oc now) q))\<lparr> workers := (workers q)[w := Polling] \<rparr>"
  have h: "holds q w x" using a(1,2) by (simp add: holds_def)
  have run: "Running x \<in> set (workers q)" using a(1,2) by (metis nth_mem)
  from queue_invD(4) [OF inv h] a(3)
  have "status task = PROCESSING \<or> status task = FAILED" by (simp add: status_of_def)
  then show ?thesis
  proof
    assume "status task = PROCESSING"
    with a s s' show ?thesis
      by (cases "r = x") (auto simp: status_of_def process_finally_fields)
  next
    assume "status task = FAILED"
    with a(3) run have "cancelled_in_flight q x"
      by (simp add: cancelled_in_flight_def status_of_def)
    with a s s' show ?thesis
      by (cases "r = x") (auto simp: status_of_def process_finally_fields)
  qed
qed

lemma status_step_worker_finish:
  "status_of (worker_finish w q) r = status_of q r"
  by (rule worker_finish_cases [of w q]) (simp_all add: status_of_def process_finally_fields)

lemma status_step_clear:
  assumes inv: "queue_inv q" and s: "status_of q r = Some s"
    and s': "status_of (clear_pending_tasks q) r = Some s'"
  shows "s' = s \<or> ((s = PENDING \<or> s = PROCESSING) \<and> s' = FAILED)"
proof (cases "r \<in> snd ` set (active_tasks q)")
  case True
  then obtain k where "(k, r) \<in> set (active_tasks q)" by auto
  from queue_invD(7) [OF inv this] obtain w where "holds q w r" by auto
  from queue_invD(4) [OF inv this] s have "s = PROCESSING \<or> s = FAILED" by simp
  moreover from True s s' have "s' = FAILED"
    by (auto simp: status_of_def clear_pending_tasks_fields cleared_def)
  ultimately show ?thesis by auto
next
  case False
  show ?thesis
  proof (cases "r \<in> set (pending_queue q)")
    case True
    with queue_invD(3) [OF inv, of r] s have "s = PENDING" by simp
    moreover from True False s s' have "s' = FAILED"
      by (auto simp: status_of_def clear_pending_tasks_fields cleared_def)
    ultimately show ?thesis by simp
  next
    case nf: False
    with False s s' show ?thesis
      by (auto simp: status_of_def clear_pending_tasks_fields cleared_def)
  qed
qed

lemma status_step:
  assumes inv: "queue_inv q" and s: "status_of q r = Some s"
    and s': "status_of (apply_action fromhex b64 a q) r = Some s'"
  shows "s' = s \<or> code_edge s s' \<or> cancelled_in_flight q r"
proof (cases a)
  case (SetCallbacks tc acc ec)
  with s s' show ?thesis by (auto simp: status_of_def set_callbacks_def)
next
  case StartWorkers
  with s s' show ?thesis by (auto simp: status_of_def start_workers_def split: if_splits)
next
  case (AddTask now ct new_id src lang hw style timeout)
  with status_step_add_task [OF inv s, of now ct new_id src lang hw style timeout s'] s'
  show ?thesis by (auto simp: code_edge_def)
next
  case (Poll w nc ns)
  with status_step_worker_poll [OF inv s, of w nc ns s'] s'
  show ?thesis by (auto simp: code_edge_def spec_edge_def)
next
  case (Settle w env now)
  with status_step_worker_settle [OF inv s, of fromhex b64 w env now s'] s'
  show ?thesis by (auto simp: code_edge_def spec_edge_def terminal_def)
next
  case (Finish w)
  with s s' show ?thesis by (simp add: status_step_worker_finish)
next
  case Clear
  with status_step_clear [OF inv s, of s'] s'
  show ?thesis by (auto simp: code_edge_def spec_edge_def)
qed

text \<open>
  Claim C1, amended. In every state the queue can reach, whatever happens next changes
  the status of a task only from \<^verbatim>\<open>PENDING\<close> to \<^verbatim>\<open>PROCESSING\<close>, \<^verbatim>\<open>FAILED\<close> or \<^verbatim>\<open>TIMEOUT\<close>, or
  from \<^verbatim>\<open>PROCESSING\<close> to \<^verbatim>\<open>COMPLETED\<close>, \<^verbatim>\<open>FAILED\<close> or \<^verbatim>\<open>TIMEOUT\<close>, and never changes a
  terminal status. This is stated for the tasks that are not cancelled in flight; nothing
  is said of a task that \<^verbatim>\<open>clear_pending_tasks\<close> has marked \<^verbatim>\<open>FAILED\<close> while a worker is
  inside its \<^verbatim>\<open>try\<close> block.
\<close>

theorem status_changes_follow_code_edges:
  assumes "q = run fromhex b64 acts (new_queue mc dt)"
    and "status_of q r = Some s"
    and "status_of (apply_action fromhex b64 a q) r = Some s'"
  shows "(s' = s \<or> code_edge s s' \<or> cancelled_in_flight q r) \<and>
         (terminal s \<and> \<not> cancelled_in_flight q r \<longrightarrow> s' = s)"
proof -
  have inv: "queue_inv q"
    using assms(1) by (simp add: queue_inv_run queue_inv_new)
  from status_step [OF inv assms(2,3)]
  have e: "s' = s \<or> code_edge s s' \<or> cancelled_in_flight q r" .
  have "\<not> code_edge s s'" if "terminal s"
    using that by (auto simp: terminal_def code_edge_def spec_edge_def)
  with e show ?thesis by auto
qed

text \<open>
  Claim C1 does not hold as stated. A task that \<^verbatim>\<open>clear_pending_tasks\<close> marks \<^verbatim>\<open>FAILED\<close>
  while a worker is processing it is moved to \<^verbatim>\<open>COMPLETED\<close> when the worker resumes and the
  processing succeeds. And a task evicted on overflow goes from \<^verbatim>\<open>PENDING\<close> to \<^verbatim>\<open>FAILED\<close>
  without ever being \<^verbatim>\<open>PROCESSING\<close>.
\<close>

theorem status_changes_follow_code_edges_counterexample:
  "status_of (run bytes_fromhex b64decode
       [SetCallbacks True True True, StartWorkers,
        AddTask 0 0 ''a'' ''ni hao'' ''English'' [] ''default'' None,
        Poll 0 1 1] (new_queue 3 45)) 0 = Some PROCESSING \<and>
   status_of (run bytes_fromhex b64decode
       [SetCallbacks True True True, StartWorkers,
        AddTask 0 0 ''a'' ''ni hao'' ''English'' [] ''default'' None,
        Poll 0 1 1, Clear] (new_queue 3 45)) 0 = Some FAILED \<and>
   status_of (run bytes_fromhex b64decode
       [SetCallbacks True True True, StartWorkers,
        AddTask 0 0 ''a'' ''ni hao'' ''English'' [] ''default'' None,
        Poll 0 1 1, Clear,
        Settle 0 \<lparr> translate_deadline = False, http = Response 200 [] [Choice ''hello'' True],
                   translation_callback_raises = None,
                   tts = \<lparr> connect_result = Connected, start_result = Started, sends_ok = True,
                           recvs = [Msg \<lparr> msg_audio = Some ''0a0b'', msg_audio_format = None,
                                          msg_event = Some ''task_finished'' \<rparr>],
                           finish_result = FinishReplied, close_ok = True \<rparr>,
                   audio_callback_raises = (\<lambda>c fin f. False), tts_deadline = None \<rparr> 2]
       (new_queue 3 45)) 0 = Some COMPLETED \<and>
   terminal FAILED \<and> \<not> spec_edge FAILED COMPLETED \<and>
   status_of (run bytes_fromhex b64decode
       [AddTask 0 0 ''a'' ''hello'' ''English'' [] ''default'' None] (new_queue 1 45)) 0
     = Some PENDING \<and>
   status_of (run bytes_fromhex b64decode
       [AddTask 0 0 ''a'' ''hello'' ''English'' [] ''default'' None,
        AddTask 1 1 ''b'' ''world'' ''English'' [] ''default'' None] (new_queue 1 45)) 0
     = Some FAILED \<and>
   \<not> spec_edge PENDING FAILED"
  by (simp add: queue_eval pipeline_eval t2v_eval terminal_def spec_edge_def)

theorem status_changes_follow_code_edges_witness:
  "status_of (run bytes_fromhex b64decode
       [StartWorkers, AddTask 0 0 ''a'' ''ni hao'' ''English'' [] ''default'' None]
       (new_queue 3 45)) 0 = Some PENDING \<and>
   status_of (apply_action bytes_fromhex b64decode (Poll 0 1 1)
      (run bytes_fromhex b64decode
       [StartWorkers, AddTask 0 0 ''a'' ''ni hao'' ''English'' [] ''default'' None]
       (new_queue 3 45))) 0 = Some PROCESSING \<and>
   code_edge PENDING PROCESSING \<and>
   status_of (run bytes_fromhex b64decode
       [AddTask 0 0 ''a'' ''hello'' ''English'' [] ''default'' None,
        AddTask 1 1 ''b'' ''world'' ''English'' [] ''default'' None] (new_queue 1 45)) 0
     = Some FAILED \<and>
   status_of (apply_action bytes_fromhex b64decode Clear
      (run bytes_fromhex b64decode
       [AddTask 0 0 ''a'' ''hello'' ''English'' [] ''default'' None,
        AddTask 1 1 ''b'' ''world'' ''English'' [] ''default'' None] (new_queue 1 45))) 0
     = Some FAILED"
proof -
  have a: "status_of (run bytes_fromhex b64decode
       [StartWorkers, AddTask 0 0 ''a'' ''ni hao'' ''English'' [] ''default'' None]
       (new_queue 3 45)) 0 = Some PENDING"
    by (simp add: queue_eval)
  have b: "status_of (apply_action bytes_fromhex b64decode (Poll 0 1 1)
      (run bytes_fromhex b64decode
       [StartWorkers, AddTask 0 0 ''a'' ''ni hao'' ''English'' [] ''default'' None]
       (new_queue 3 45))) 0 = Some PROCESSING"
    by (simp add: queue_eval)
  have c: "status_of (run bytes_fromhex b64decode
       [AddTask 0 0 ''a'' ''hello'' ''English'' [] ''default'' None,
        AddTask 1 1 ''b'' ''world'' ''English'' [] ''default'' None] (new_queue 1 45)) 0
     = Some FAILED"
    by (simp add: queue_eval)
  have d: "\<exists>x. status_of (apply_action bytes_fromhex b64decode Clear
      (run bytes_fromhex b64decode
       [AddTask 0 0 ''a'' ''hello'' ''English'' [] ''default'' None,
        AddTask 1 1 ''b'' ''world'' ''English'' [] ''default'' None] (new_queue 1 45))) 0
     = Some x"
    by (simp add: queue_eval)
  then obtain x where d': "status_of (apply_action bytes_fromhex b64decode Clear
      (run bytes_fromhex b64decode
       [AddTask 0 0 ''a'' ''hello'' ''English'' [] ''default'' None,
        AddTask 1 1 ''b'' ''world'' ''English'' [] ''default'' None] (new_queue 1 45))) 0
     = Some x" ..
  have nc: "\<not> cancelled_in_flight (run bytes_fromhex b64decode
       [AddTask 0 0 ''a'' ''hello'' ''English'' [] ''default'' None,
        AddTask 1 1 ''b'' ''world'' ''English'' [] ''default'' None] (new_queue 1 45)) 0"
    by (simp add: cancelled_in_flight_def queue_eval)
  from status_changes_follow_code_edges [OF refl a b]
  have e: "code_edge PENDING PROCESSING"
    by (simp add: cancelled_in_flight_def queue_eval)
  from status_changes_follow_code_edges [OF refl c d'] nc
  have "x = FAILED" by (simp add: terminal_def)
  with a b c d' e show ?thesis by simp
qed

end
